theory Spec2Isabelle
  imports Complex_Main "HOL-Library.AList" "HOL-Library.Multiset"
begin

section \<open>Sprite anomaly detection, replacement and stabilization (autofix.js)\<close>

text \<open>
  A shallow embedding of the auto-fix pipeline: pixel analysis, reference statistics,
  the four detection passes, the replacement resolver, the stabilizer and the verifier.

  Conventions of the embedding.
  \<^item> A frame buffer is modelled by its decoded form: width, height and the flat RGBA
    byte array that \<open>sharp(buf).ensureAlpha().raw()\<close> yields. Bytes are naturals.
    Encoding to PNG and decoding again is lossless and is the identity here.
  \<^item> JavaScript numbers that hold counts and indices are naturals; ratios and scores
    are reals, so the rounding of IEEE doubles is not modelled.
  \<^item> \<open>Array.prototype.sort((a, b) => a - b)\<close> is the ascending sort \<^const>\<open>sort\<close>.
  \<^item> A JavaScript array whose slots may be \<open>undefined\<close> is a list of options,
    \<^const>\<open>None\<close> standing for \<open>undefined\<close>.
  \<^item> The \<open>Map\<close> of anomalies per frame index is an association list in insertion
    order: \<open>Map.set\<close> is \<^const>\<open>AList.update\<close>, \<open>Map.get\<close> is \<^const>\<open>map_of\<close>.
  \<^item> The functions of the libraries \<open>sharp\<close> and \<open>pixelmatch\<close>, and the
    floating-point score \<open>calculateSimplifiedSSIM\<close>, are parameters of the model
    (record \<open>ext\<close>), except cropping and compositing, whose pixel semantics the
    stabilizer's properties depend on, and the argument checks of \<open>pixelmatch\<close>, which
    make the verifier throw.
  \<^item> An exception is a value: a function that can throw returns \<open>error + 'a\<close>.
\<close>

subsection \<open>Data model\<close>

record frame =
  fwidth :: nat
  fheight :: nat
  fdata :: "nat list"

record color_counts =
  darkGreen :: nat
  brown :: nat
  darkPixels :: nat
  other :: nat

record alpha_counts =
  opaque :: nat
  semiTrans :: nat
  transparent :: nat

record alpha_ratios =
  opaqueRatio :: real
  semiTransRatio :: real
  transparentRatio :: real

record pixel_analysis =
  pa_colors :: color_counts
  pa_alpha :: alpha_ratios

record frame_analysis =
  findex :: nat
  fa_data :: "nat list"
  fa_width :: nat
  fa_height :: nat
  colors :: color_counts
  alpha :: alpha_ratios

record medians =
  med_darkGreen :: nat
  med_brown :: nat
  med_darkPixels :: nat
  med_opaqueRatio :: real
  med_semiTransRatio :: real

datatype channel = DarkGreen | Brown | DarkPixels

datatype severity_level = moderate | severe

datatype anomaly_type =
  color_loss | green_washout | transparency_hole | extra_opacity
  | halo_effect | structural_damage | pixel_outlier

text \<open>The method-specific fields of an anomaly record, in the order of the source.\<close>

datatype anomaly_details =
    ColorDetails nat nat real
  | OpacityDetails real real real real
  | HaloDetails real real real
  | SSIMDetails real real real
  | DiffDetails real real real

record anomaly =
  atype :: anomaly_type
  channel :: "channel option"
  details :: anomaly_details
  severity :: severity_level

record bad_frame =
  index :: nat
  reasons :: "anomaly list"
  replacement :: nat
  frameSeverity :: severity_level

record detection_result =
  badFrames :: "bad_frame list"
  methodsUsed :: "string list"

record options =
  colorRatioThreshold :: real
  opacityIQRMultiplier :: real
  ssimThreshold :: real
  pixelDiffThreshold :: real

definition defaultOptions :: options where
  "defaultOptions =
     \<lparr>colorRatioThreshold = 0.35, opacityIQRMultiplier = 2.5,
      ssimThreshold = 0.55, pixelDiffThreshold = 0.15\<rparr>"

text \<open>
  The library functions the pipeline calls and the model does not look into:
  \<open>sharp(buf).resize(w, h, {fit: 'contain', ...}).ensureAlpha().raw()\<close>,
  \<open>pixelmatch(a, b, null, w, h, {threshold: 0.1})\<close> and the score
  \<open>calculateSimplifiedSSIM(a, b, w, h)\<close>.
\<close>

record ext =
  resizeContain :: "frame \<Rightarrow> nat \<Rightarrow> nat \<Rightarrow> nat list"
  pixelmatch :: "nat list \<Rightarrow> nat list \<Rightarrow> nat \<Rightarrow> nat \<Rightarrow> nat"
  calculateSimplifiedSSIM :: "nat list \<Rightarrow> nat list \<Rightarrow> nat \<Rightarrow> nat \<Rightarrow> real"

record rect =
  rx :: nat
  ry :: nat
  rwidth :: nat
  rheight :: nat

datatype issue =
    InconsistentSizes "(nat \<times> nat) list"
  | LargeVariance real

record verification =
  passed :: bool
  issues :: "issue list"

record replacement_entry =
  badFrame :: nat
  replacedWith :: nat
  entryReasons :: "anomaly list"

record report =
  totalFrames :: nat
  reportBadFrames :: "bad_frame list"
  replacements :: "replacement_entry list"
  stabilized :: bool
  detectionMethods :: "string list"
  verified :: bool
  verificationDetails :: verification

record autofix_result =
  frames :: "frame list"
  report :: report

datatype error = InvalidInput | ImageSizesDoNotMatch | ImageDataSizeMismatch

subsection \<open>Pixel analyzer\<close>

text \<open>
  One step of the loop of \<open>analyzePixels\<close> on the bytes \<open>r, g, b, a\<close> of a pixel:
  the alpha category first, then (for \<open>a \<ge> 128\<close>) the first matching colour rule.
\<close>

definition countAlpha :: "nat \<Rightarrow> alpha_counts \<Rightarrow> alpha_counts" where
  "countAlpha a al =
     (if a > 250 then al\<lparr>opaque := opaque al + 1\<rparr>
      else if a > 5 then al\<lparr>semiTrans := semiTrans al + 1\<rparr>
      else al\<lparr>transparent := transparent al + 1\<rparr>)"

definition countColor :: "nat \<Rightarrow> nat \<Rightarrow> nat \<Rightarrow> color_counts \<Rightarrow> color_counts" where
  "countColor r g b c =
     (if g > r \<and> g > b \<and> g > 80 \<and> g < 180 \<and> r < 130 \<and> b < 110
        then c\<lparr>darkGreen := darkGreen c + 1\<rparr>
      else if r > 70 \<and> r < 190 \<and> g > 50 \<and> g < 150 \<and> b > 30 \<and> b < 130
              \<and> \<bar>int r - int g\<bar> < 60
        then c\<lparr>brown := brown c + 1\<rparr>
      else if r < 90 \<and> g < 90 \<and> b < 90
        then c\<lparr>darkPixels := darkPixels c + 1\<rparr>
      else c\<lparr>other := other c + 1\<rparr>)"

text \<open>
  The loop \<open>for (i = 0; i < data.length; i += 4)\<close>. A raw RGBA buffer has a length
  that is a multiple of 4; a trailing incomplete pixel is not counted.
\<close>

fun analyzeLoop :: "nat list \<Rightarrow> color_counts \<times> alpha_counts \<Rightarrow> color_counts \<times> alpha_counts" where
  "analyzeLoop (r # g # b # a # rest) (c, al) =
     analyzeLoop rest ((if a < 128 then c else countColor r g b c), countAlpha a al)"
| "analyzeLoop _ acc = acc"

definition analyzePixels :: "nat list \<Rightarrow> nat \<Rightarrow> nat \<Rightarrow> pixel_analysis" where
  "analyzePixels data width height =
     (let (c, al) = analyzeLoop data
                      (\<lparr>darkGreen = 0, brown = 0, darkPixels = 0, other = 0\<rparr>,
                       \<lparr>opaque = 0, semiTrans = 0, transparent = 0\<rparr>);
          totalPixels = width * height
      in \<lparr>pa_colors = c,
          pa_alpha = \<lparr>opaqueRatio = real (opaque al) / real totalPixels,
                      semiTransRatio = real (semiTrans al) / real totalPixels,
                      transparentRatio = real (transparent al) / real totalPixels\<rparr>\<rparr>)"

text \<open>The per-frame record built by \<open>frameBuffers.map(async (buf, idx) => ...)\<close>.\<close>

definition analyzeFrame :: "nat \<Rightarrow> frame \<Rightarrow> frame_analysis" where
  "analyzeFrame idx buf =
     (let pa = analyzePixels (fdata buf) (fwidth buf) (fheight buf)
      in \<lparr>findex = idx, fa_data = fdata buf, fa_width = fwidth buf, fa_height = fheight buf,
          colors = pa_colors pa, alpha = pa_alpha pa\<rparr>)"

definition analyzeAll :: "frame list \<Rightarrow> frame_analysis list" where
  "analyzeAll frameBuffers =
     map (\<lambda>idx. analyzeFrame idx (frameBuffers ! idx)) [0..<length frameBuffers]"

subsection \<open>Reference statistics (nearest-rank selection)\<close>

text \<open>\<open>Math.floor(len * 0.25)\<close>, \<open>Math.floor(len * 0.75)\<close>, \<open>Math.floor(len / 2)\<close>.\<close>

definition floorQ1 :: "nat \<Rightarrow> nat" where
  "floorQ1 len = nat \<lfloor>real len * 0.25\<rfloor>"

definition floorQ3 :: "nat \<Rightarrow> nat" where
  "floorQ3 len = nat \<lfloor>real len * 0.75\<rfloor>"

definition floorHalf :: "nat \<Rightarrow> nat" where
  "floorHalf len = nat \<lfloor>real len / 2\<rfloor>"

text \<open>\<open>getMedian\<close> of \<open>calculateMedianStats\<close>: sort a copy, take \<open>sorted[floor(n/2)]\<close>.\<close>

definition getMedian :: "('a::linorder) list \<Rightarrow> 'a" where
  "getMedian arr = (let sorted = sort arr in sorted ! floorHalf (length sorted))"

definition calculateMedianStats :: "frame_analysis list \<Rightarrow> medians" where
  "calculateMedianStats frameAnalysis =
     \<lparr>med_darkGreen = getMedian (map (\<lambda>f. darkGreen (colors f)) frameAnalysis),
      med_brown = getMedian (map (\<lambda>f. brown (colors f)) frameAnalysis),
      med_darkPixels = getMedian (map (\<lambda>f. darkPixels (colors f)) frameAnalysis),
      med_opaqueRatio = getMedian (map (\<lambda>f. opaqueRatio (alpha f)) frameAnalysis),
      med_semiTransRatio = getMedian (map (\<lambda>f. semiTransRatio (alpha f)) frameAnalysis)\<rparr>"

text \<open>
  The quartile selections that \<open>detectBadFrames\<close> writes inline for the opacity
  ratios, the semi-transparency ratios and the SSIM scores:
  \<open>sorted[Math.floor(sorted.length * 0.25)]\<close> and \<open>sorted[Math.floor(sorted.length * 0.75)]\<close>.
\<close>

definition quartile1 :: "('a::linorder) list \<Rightarrow> 'a" where
  "quartile1 values = (let sorted = sort values in sorted ! floorQ1 (length sorted))"

definition quartile3 :: "('a::linorder) list \<Rightarrow> 'a" where
  "quartile3 values = (let sorted = sort values in sorted ! floorQ3 (length sorted))"

text \<open>
  The reference the specification compares with, in its words: nearest-rank selection
  \<open>sorted[floor(n * p)]\<close> on the sorted values, with no interpolation.
\<close>

definition nearestRank :: "real \<Rightarrow> ('a::linorder) list \<Rightarrow> 'a" where
  "nearestRank p values = sort values ! nat \<lfloor>real (length values) * p\<rfloor>"

subsection \<open>The anomaly map\<close>

type_synonym anomaly_map = "(nat \<times> anomaly list) list"

text \<open>\<open>frameAnomalies.get(i) || []\<close>.\<close>

definition getOrEmpty :: "anomaly_map \<Rightarrow> nat \<Rightarrow> anomaly list" where
  "getOrEmpty frameAnomalies i =
     (case map_of frameAnomalies i of None \<Rightarrow> [] | Some anomalies \<Rightarrow> anomalies)"

text \<open>
  \<open>Math.max(...xs)\<close> on natural numbers. With no argument JavaScript gives
  \<open>-Infinity\<close>; the model gives 0 there, and every caller that uses the result has at
  least one argument.
\<close>

definition Math_max :: "nat list \<Rightarrow> nat" where
  "Math_max xs = fold max xs 0"

subsection \<open>Method 1: colour histogram\<close>

definition channelMedian :: "medians \<Rightarrow> channel \<Rightarrow> nat" where
  "channelMedian stats ch =
     (case ch of DarkGreen \<Rightarrow> med_darkGreen stats | Brown \<Rightarrow> med_brown stats
               | DarkPixels \<Rightarrow> med_darkPixels stats)"

definition channelCount :: "color_counts \<Rightarrow> channel \<Rightarrow> nat" where
  "channelCount c ch =
     (case ch of DarkGreen \<Rightarrow> darkGreen c | Brown \<Rightarrow> brown c | DarkPixels \<Rightarrow> darkPixels c)"

text \<open>The body of \<open>for (const channel of ['darkGreen', 'brown', 'darkPixels'])\<close>.\<close>

definition checkChannel ::
  "real \<Rightarrow> medians \<Rightarrow> frame_analysis \<Rightarrow> channel \<Rightarrow> anomaly list \<Rightarrow> anomaly list" where
  "checkChannel colorRatioThr stats frame ch anomalies =
     (let medianCount = channelMedian stats ch;
          frameCount = channelCount (colors frame) ch
      in if medianCount > 50 then
           (let ratio = real frameCount / real medianCount
            in if ratio < colorRatioThr
               then anomalies @
                    [\<lparr>atype = color_loss, channel = Some ch,
                      details = ColorDetails frameCount medianCount ratio,
                      severity = (if ratio < 0.2 then severe else moderate)\<rparr>]
               else anomalies)
         else anomalies)"

text \<open>The special check for the green channel.\<close>

definition checkGreen ::
  "real \<Rightarrow> medians \<Rightarrow> frame_analysis \<Rightarrow> anomaly list \<Rightarrow> anomaly list" where
  "checkGreen colorRatioThr stats frame anomalies =
     (if med_darkGreen stats > 100 then
        (let greenRatio = real (darkGreen (colors frame)) / real (med_darkGreen stats)
         in if greenRatio < colorRatioThr then
              (if \<exists>a \<in> set anomalies. channel a = Some DarkGreen then anomalies
               else anomalies @
                    [\<lparr>atype = green_washout, channel = None,
                      details = ColorDetails (darkGreen (colors frame)) (med_darkGreen stats)
                                  greenRatio,
                      severity = (if greenRatio < 0.2 then severe else moderate)\<rparr>])
            else anomalies)
      else anomalies)"

definition histogramAnomalies :: "real \<Rightarrow> medians \<Rightarrow> frame_analysis \<Rightarrow> anomaly list" where
  "histogramAnomalies colorRatioThr stats frame =
     checkGreen colorRatioThr stats frame
       (fold (checkChannel colorRatioThr stats frame) [DarkGreen, Brown, DarkPixels] [])"

definition histogramFrame ::
  "real \<Rightarrow> medians \<Rightarrow> frame_analysis \<Rightarrow> anomaly_map \<Rightarrow> anomaly_map" where
  "histogramFrame colorRatioThr stats frame frameAnomalies =
     (let anomalies = histogramAnomalies colorRatioThr stats frame
      in if length anomalies > 0 then AList.update (findex frame) anomalies frameAnomalies
         else frameAnomalies)"

definition method1 ::
  "real \<Rightarrow> medians \<Rightarrow> frame_analysis list \<Rightarrow> anomaly_map \<Rightarrow> anomaly_map" where
  "method1 colorRatioThr stats frameAnalysis frameAnomalies =
     fold (histogramFrame colorRatioThr stats) frameAnalysis frameAnomalies"

subsection \<open>Method 2: alpha channel\<close>

text \<open>The record pushed when the opaque ratio lies outside the bounds.\<close>

definition opacityAnomaly :: "medians \<Rightarrow> real \<Rightarrow> real \<Rightarrow> real \<Rightarrow> frame_analysis \<Rightarrow> anomaly" where
  "opacityAnomaly stats opacityLowerBound opacityUpperBound opacityIQR frame =
     \<lparr>atype = (if opaqueRatio (alpha frame) < med_opaqueRatio stats
                then transparency_hole else extra_opacity),
      channel = None,
      details = OpacityDetails (opaqueRatio (alpha frame)) (med_opaqueRatio stats)
                  opacityLowerBound opacityUpperBound,
      severity = (if opaqueRatio (alpha frame) < opacityLowerBound - opacityIQR
                  then severe else moderate)\<rparr>"

definition opacityCheck ::
  "medians \<Rightarrow> real \<Rightarrow> real \<Rightarrow> real \<Rightarrow> frame_analysis \<Rightarrow> anomaly_map \<Rightarrow> anomaly_map" where
  "opacityCheck stats opacityLowerBound opacityUpperBound opacityIQR frame frameAnomalies =
     (if opaqueRatio (alpha frame) < opacityLowerBound
         \<or> opaqueRatio (alpha frame) > opacityUpperBound
      then AList.update (findex frame)
             (getOrEmpty frameAnomalies (findex frame) @
              [opacityAnomaly stats opacityLowerBound opacityUpperBound opacityIQR frame])
             frameAnomalies
      else frameAnomalies)"

definition haloCheck :: "frame_analysis list \<Rightarrow> frame_analysis \<Rightarrow> anomaly_map \<Rightarrow> anomaly_map" where
  "haloCheck frameAnalysis frame frameAnomalies =
     (let semiTransValues = map (\<lambda>f. semiTransRatio (alpha f)) frameAnalysis;
          semiTransQ3 = quartile3 semiTransValues;
          semiTransDiff = semiTransRatio (alpha frame) - semiTransQ3
      in if semiTransDiff > 0.08
         then AList.update (findex frame)
                (getOrEmpty frameAnomalies (findex frame) @
                 [\<lparr>atype = halo_effect, channel = None,
                   details = HaloDetails (semiTransRatio (alpha frame)) semiTransQ3 semiTransDiff,
                   severity = (if semiTransDiff > 0.15 then severe else moderate)\<rparr>])
                frameAnomalies
         else frameAnomalies)"

text \<open>
  The quartiles, the interquartile range and the two bounds are real numbers here. The
  code computes them in double precision, so a ratio within rounding distance of a
  bound can fall on the other side of it in the code: for the ratios 0.3, 0.8, 0.8, 1
  the code's lower bound \<open>0.8 - 2.5 * (1 - 0.8)\<close> is 0.30000000000000016 and the
  frame at 0.3 is below it, while the real bound is 0.3 and the frame is not.
\<close>

definition opacityIQR :: "frame_analysis list \<Rightarrow> real" where
  "opacityIQR frameAnalysis =
     (let opacityValues = map (\<lambda>f. opaqueRatio (alpha f)) frameAnalysis
      in quartile3 opacityValues - quartile1 opacityValues)"

definition opacityLowerBound :: "real \<Rightarrow> frame_analysis list \<Rightarrow> real" where
  "opacityLowerBound opacityIQRMult frameAnalysis =
     (let opacityValues = map (\<lambda>f. opaqueRatio (alpha f)) frameAnalysis
      in quartile1 opacityValues - opacityIQRMult * opacityIQR frameAnalysis)"

definition opacityUpperBound :: "real \<Rightarrow> frame_analysis list \<Rightarrow> real" where
  "opacityUpperBound opacityIQRMult frameAnalysis =
     (let opacityValues = map (\<lambda>f. opaqueRatio (alpha f)) frameAnalysis
      in quartile3 opacityValues + opacityIQRMult * opacityIQR frameAnalysis)"

definition alphaFrame ::
  "real \<Rightarrow> medians \<Rightarrow> frame_analysis list \<Rightarrow> frame_analysis \<Rightarrow> anomaly_map \<Rightarrow> anomaly_map" where
  "alphaFrame opacityIQRMult stats frameAnalysis frame frameAnomalies =
     haloCheck frameAnalysis frame
       (opacityCheck stats (opacityLowerBound opacityIQRMult frameAnalysis)
          (opacityUpperBound opacityIQRMult frameAnalysis) (opacityIQR frameAnalysis)
          frame frameAnomalies)"

definition method2 ::
  "real \<Rightarrow> medians \<Rightarrow> frame_analysis list \<Rightarrow> anomaly_map \<Rightarrow> anomaly_map" where
  "method2 opacityIQRMult stats frameAnalysis frameAnomalies =
     fold (alphaFrame opacityIQRMult stats frameAnalysis) frameAnalysis frameAnomalies"

subsection \<open>Method 3: structural similarity of adjacent frames\<close>

definition ssimOutlierThreshold :: "real list \<Rightarrow> real" where
  "ssimOutlierThreshold ssimScores =
     (let ssimQ1 = quartile1 ssimScores;
          ssimQ3 = quartile3 ssimScores;
          ssimIQR = ssimQ3 - ssimQ1
      in ssimQ1 - 3.0 * ssimIQR)"

text \<open>The body of \<open>for (let i = 1; i < numFrames - 1; i++)\<close> of method 3.\<close>

definition ssimFrame :: "real \<Rightarrow> real list \<Rightarrow> nat \<Rightarrow> anomaly_map \<Rightarrow> anomaly_map" where
  "ssimFrame ssimThr adjacentSSIM i frameAnomalies =
     (let ssimToPrev = adjacentSSIM ! (i - 1);
          ssimToNext = adjacentSSIM ! i;
          bothLow = (ssimToPrev < ssimOutlierThreshold adjacentSSIM
                     \<and> ssimToNext < ssimOutlierThreshold adjacentSSIM);
          veryLow = (min ssimToPrev ssimToNext < ssimThr)
      in if bothLow \<and> veryLow
         then AList.update i
                (getOrEmpty frameAnomalies i @
                 [\<lparr>atype = structural_damage, channel = None,
                   details = SSIMDetails ssimToPrev ssimToNext (ssimOutlierThreshold adjacentSSIM),
                   severity = (if min ssimToPrev ssimToNext < 0.4 then severe else moderate)\<rparr>])
                frameAnomalies
         else frameAnomalies)"

definition method3 :: "real \<Rightarrow> real list \<Rightarrow> nat \<Rightarrow> anomaly_map \<Rightarrow> anomaly_map" where
  "method3 ssimThr adjacentSSIM numFrames frameAnomalies =
     fold (ssimFrame ssimThr adjacentSSIM) [1..<numFrames - 1] frameAnomalies"

subsection \<open>Method 4: pixel-difference outliers\<close>

text \<open>
  The average and the threshold are real numbers here; in the code they are doubles,
  and an average at rounding distance of the threshold can compare differently:
  \<open>(0.1 + 0.2) / 2 > 0.15\<close> holds for doubles and not for reals.
\<close>

definition diffFrame :: "real \<Rightarrow> real list \<Rightarrow> nat \<Rightarrow> anomaly_map \<Rightarrow> anomaly_map" where
  "diffFrame pixelDiffThr consecutiveDiffs i frameAnomalies =
     (let medianDiff = getMedian consecutiveDiffs;
          outlierThreshold = max (medianDiff * 2.5) pixelDiffThr;
          avgDiff = (consecutiveDiffs ! (i - 1) + consecutiveDiffs ! i) / 2
      in if avgDiff > outlierThreshold then
           (let anomalies = getOrEmpty frameAnomalies i
            in if \<not> (\<exists>a \<in> set anomalies. atype a = structural_damage)
               then AList.update i
                      (anomalies @
                       [\<lparr>atype = pixel_outlier, channel = None,
                         details = DiffDetails avgDiff medianDiff outlierThreshold,
                         severity = (if avgDiff > medianDiff * 4 then severe else moderate)\<rparr>])
                      frameAnomalies
               else frameAnomalies)
         else frameAnomalies)"

definition method4 :: "real \<Rightarrow> real list \<Rightarrow> nat \<Rightarrow> anomaly_map \<Rightarrow> anomaly_map" where
  "method4 pixelDiffThr consecutiveDiffs numFrames frameAnomalies =
     fold (diffFrame pixelDiffThr consecutiveDiffs) [1..<numFrames - 1] frameAnomalies"

subsection \<open>Replacement resolver and the list of bad frames\<close>

text \<open>
  The loop \<open>for (let dist = 2; dist < numFrames; dist++)\<close> with its two \<open>break\<close>s;
  the list holds the distances still to try, \<open>index - dist >= 0\<close> is \<open>dst \<le> idx\<close>,
  and the last argument is the value \<open>replacement\<close> has when the loop ends without
  a \<open>break\<close>.
\<close>

fun searchOutward :: "nat \<Rightarrow> nat set \<Rightarrow> nat \<Rightarrow> nat list \<Rightarrow> nat \<Rightarrow> nat" where
  "searchOutward numFrames badIndices idx [] repl = repl"
| "searchOutward numFrames badIndices idx (dst # dsts) repl =
     (if dst \<le> idx \<and> idx - dst \<notin> badIndices then idx - dst
      else if idx + dst < numFrames \<and> idx + dst \<notin> badIndices then idx + dst
      else searchOutward numFrames badIndices idx dsts repl)"

definition resolveReplacement :: "nat \<Rightarrow> nat set \<Rightarrow> nat \<Rightarrow> nat" where
  "resolveReplacement numFrames badIndices idx =
     (let repl = (if idx > 0 then idx - 1 else idx + 1)
      in if idx > 0 \<and> idx - 1 \<notin> badIndices then idx - 1
         else if idx < numFrames - 1 \<and> idx + 1 \<notin> badIndices then idx + 1
         else searchOutward numFrames badIndices idx [2..<numFrames] repl)"

definition reasonsSeverity :: "anomaly list \<Rightarrow> severity_level" where
  "reasonsSeverity rs = (if \<exists>r \<in> set rs. severity r = severe then severe else moderate)"

text \<open>
  \<open>for (const [index, reasons] of frameAnomalies)\<close> in insertion order, then
  \<open>badFrames.sort((a, b) => a.index - b.index)\<close>.
\<close>

definition buildBadFrames :: "nat \<Rightarrow> anomaly_map \<Rightarrow> bad_frame list" where
  "buildBadFrames numFrames frameAnomalies =
     (let badIndices = set (map fst frameAnomalies)
      in sort_key index
           (map (\<lambda>(idx, rs).
                   \<lparr>index = idx, reasons = rs,
                    replacement = resolveReplacement numFrames badIndices idx,
                    frameSeverity = reasonsSeverity rs\<rparr>)
                frameAnomalies))"

subsection \<open>Detection\<close>

definition adjacentScores :: "ext \<Rightarrow> frame list \<Rightarrow> real list" where
  "adjacentScores e frameBuffers =
     (let frameAnalysis = analyzeAll frameBuffers;
          numFrames = length frameBuffers;
          maxWidth = Math_max (map fa_width frameAnalysis);
          maxHeight = Math_max (map fa_height frameAnalysis);
          normalizedFrames = map (\<lambda>buf. resizeContain e buf maxWidth maxHeight) frameBuffers
      in map (\<lambda>i. calculateSimplifiedSSIM e (normalizedFrames ! i) (normalizedFrames ! (i + 1))
                     maxWidth maxHeight)
             [0..<numFrames - 1])"

text \<open>
  The detector resizes every frame to \<open>maxWidth \<times> maxHeight\<close> before it compares
  them, so all its raw buffers have \<open>maxWidth * maxHeight * 4\<close> bytes and the argument
  checks of \<open>pixelmatch\<close> pass: here the call is the count itself.
\<close>

definition consecutiveDiffs :: "ext \<Rightarrow> frame list \<Rightarrow> real list" where
  "consecutiveDiffs e frameBuffers =
     (let frameAnalysis = analyzeAll frameBuffers;
          numFrames = length frameBuffers;
          maxWidth = Math_max (map fa_width frameAnalysis);
          maxHeight = Math_max (map fa_height frameAnalysis);
          normalizedFrames = map (\<lambda>buf. resizeContain e buf maxWidth maxHeight) frameBuffers;
          totalPixels = maxWidth * maxHeight
      in map (\<lambda>i. real (pixelmatch e (normalizedFrames ! i) (normalizedFrames ! (i + 1))
                           maxWidth maxHeight) / real totalPixels)
             [0..<numFrames - 1])"

text \<open>The anomaly map after the four passes, for \<open>numFrames \<ge> 3\<close>.\<close>

definition collectAnomalies :: "ext \<Rightarrow> options \<Rightarrow> frame list \<Rightarrow> anomaly_map" where
  "collectAnomalies e opts frameBuffers =
     (let numFrames = length frameBuffers;
          frameAnalysis = analyzeAll frameBuffers;
          stats = calculateMedianStats frameAnalysis;
          m1 = method1 (colorRatioThreshold opts) stats frameAnalysis [];
          m2 = method2 (opacityIQRMultiplier opts) stats frameAnalysis m1;
          m3 = method3 (ssimThreshold opts) (adjacentScores e frameBuffers) numFrames m2
      in method4 (pixelDiffThreshold opts) (consecutiveDiffs e frameBuffers) numFrames m3)"

definition detectBadFrames :: "ext \<Rightarrow> options \<Rightarrow> frame list \<Rightarrow> detection_result" where
  "detectBadFrames e opts frameBuffers =
     (let numFrames = length frameBuffers
      in if numFrames < 3 then \<lparr>badFrames = [], methodsUsed = []\<rparr>
         else \<lparr>badFrames = buildBadFrames numFrames (collectAnomalies e opts frameBuffers),
               methodsUsed = [''color_histogram'', ''alpha_analysis'',
                              ''structural_similarity'', ''pixel_outlier'']\<rparr>)"

subsection \<open>Replacement\<close>

text \<open>
  Reading and writing a JavaScript array by index: a read out of range gives
  \<open>undefined\<close>, a write out of range extends the array with empty slots.
\<close>

definition jsGet :: "'a option list \<Rightarrow> nat \<Rightarrow> 'a option" where
  "jsGet xs i = (if i < length xs then xs ! i else None)"

definition jsSet :: "'a option list \<Rightarrow> nat \<Rightarrow> 'a option \<Rightarrow> 'a option list" where
  "jsSet xs i v =
     (if i < length xs then xs[i := v] else xs @ replicate (i - length xs) None @ [v])"

definition replaceBadFrames :: "'a option list \<Rightarrow> bad_frame list \<Rightarrow> 'a option list" where
  "replaceBadFrames frameBuffers badFrameInfos =
     fold (\<lambda>bad frs. jsSet frs (index bad) (jsGet frs (replacement bad)))
          badFrameInfos frameBuffers"

subsection \<open>Stabilizer\<close>

definition ALPHA_THRESHOLD :: nat where
  "ALPHA_THRESHOLD = 20"

text \<open>
  The body of the two nested loops of \<open>findContentBounds\<close> on the accumulator
  \<open>(minX, maxX, minY, maxY)\<close>; a read of \<open>data[idx + 3]\<close> beyond the array is
  \<open>undefined\<close>, which is not greater than the threshold.
\<close>

definition scanPixel ::
  "nat list \<Rightarrow> nat \<Rightarrow> nat \<Rightarrow> nat \<Rightarrow> nat \<times> nat \<times> nat \<times> nat \<Rightarrow> nat \<times> nat \<times> nat \<times> nat" where
  "scanPixel data width y x acc =
     (case acc of (minX, maxX, minY, maxY) \<Rightarrow>
        (let idx = (y * width + x) * 4
         in if idx + 3 < length data \<and> data ! (idx + 3) > ALPHA_THRESHOLD
            then (min minX x, max maxX x, min minY y, max maxY y)
            else acc))"

definition scanAll :: "nat list \<Rightarrow> nat \<Rightarrow> nat \<Rightarrow> nat \<times> nat \<times> nat \<times> nat" where
  "scanAll data width height =
     fold (\<lambda>y. fold (scanPixel data width y) [0..<width]) [0..<height] (width, 0, height, 0)"

definition findContentBounds :: "nat list \<Rightarrow> nat \<Rightarrow> nat \<Rightarrow> rect" where
  "findContentBounds data width height =
     (case scanAll data width height of (minX, maxX, minY, maxY) \<Rightarrow>
        if minX > maxX \<or> minY > maxY
        then \<lparr>rx = 0, ry = 0, rwidth = width, rheight = height\<rparr>
        else \<lparr>rx = minX, ry = minY, rwidth = maxX - minX + 1, rheight = maxY - minY + 1\<rparr>)"

text \<open>The four bytes of the pixel in column \<open>x\<close> and row \<open>y\<close> of a frame.\<close>

definition pixelAt :: "frame \<Rightarrow> nat \<Rightarrow> nat \<Rightarrow> nat list" where
  "pixelAt img x y = take 4 (drop ((y * fwidth img + x) * 4) (fdata img))"

text \<open>The raw buffer, row by row, of an image given by its pixels.\<close>

definition makeData :: "nat \<Rightarrow> nat \<Rightarrow> (nat \<Rightarrow> nat \<Rightarrow> nat list) \<Rightarrow> nat list" where
  "makeData w h f = concat (map (\<lambda>i. f (i mod w) (i div w)) [0..<w * h])"

text \<open>
  Modelled from the spec: the codec collaborator's \<open>crop(image, rect)\<close>, which the
  source calls as \<open>sharp(buf).extract({left, top, width, height})\<close> and which belongs
  to the library \<open>sharp\<close>: the image of the given size whose pixel \<open>(x, y)\<close> is the
  input's pixel \<open>(left + x, top + y)\<close>.
\<close>

definition extractRegion :: "frame \<Rightarrow> nat \<Rightarrow> nat \<Rightarrow> nat \<Rightarrow> nat \<Rightarrow> frame" where
  "extractRegion img left topY w h =
     \<lparr>fwidth = w, fheight = h, fdata = makeData w h (\<lambda>x y. pixelAt img (left + x) (topY + y))\<rparr>"

text \<open>
  Modelled from the spec: the codec collaborator's
  \<open>composite(canvasSpec, [{input, left, top}])\<close>, which the source calls as
  \<open>sharp({create: {width, height, channels: 4, background: transparent}})
  .composite([{input, left, top}])\<close>: a transparent canvas of the given size on which
  the input's pixels are placed with their top-left corner at \<open>(left, top)\<close>.
\<close>

definition composite :: "nat \<Rightarrow> nat \<Rightarrow> frame \<Rightarrow> nat \<Rightarrow> nat \<Rightarrow> frame" where
  "composite canvasWidth canvasHeight content left topY =
     \<lparr>fwidth = canvasWidth, fheight = canvasHeight,
      fdata = makeData canvasWidth canvasHeight
                (\<lambda>x y. if left \<le> x \<and> x < left + fwidth content
                           \<and> topY \<le> y \<and> y < topY + fheight content
                        then pixelAt content (x - left) (y - topY)
                        else [0, 0, 0, 0])\<rparr>"

definition boundsOf :: "frame \<Rightarrow> rect" where
  "boundsOf buf = findContentBounds (fdata buf) (fwidth buf) (fheight buf)"

definition maxContentWidth :: "frame list \<Rightarrow> nat" where
  "maxContentWidth bufs = Math_max (map (\<lambda>buf. rwidth (boundsOf buf)) bufs)"

definition maxContentHeight :: "frame list \<Rightarrow> nat" where
  "maxContentHeight bufs = Math_max (map (\<lambda>buf. rheight (boundsOf buf)) bufs)"

text \<open>The second \<open>map\<close> of \<open>stabilizeFrames\<close>: crop to the bounds, place on the canvas.\<close>

definition stabilizeOne :: "nat \<Rightarrow> nat \<Rightarrow> frame \<Rightarrow> frame" where
  "stabilizeOne canvasWidth canvasHeight buf =
     (let bounds = boundsOf buf;
          content = extractRegion buf (rx bounds) (ry bounds) (rwidth bounds) (rheight bounds);
          left = floorHalf (canvasWidth - rwidth bounds);
          topY = canvasHeight - rheight bounds
      in composite canvasWidth canvasHeight content left topY)"

definition stabilizeDecoded :: "frame list \<Rightarrow> frame list" where
  "stabilizeDecoded bufs =
     (let canvasWidth = maxContentWidth bufs + 40;
          canvasHeight = maxContentHeight bufs + 40
      in map (stabilizeOne canvasWidth canvasHeight) bufs)"

text \<open>
  \<open>stabilizeFrames\<close> receives a JavaScript array; \<open>sharp(undefined)\<close> throws, so an
  array with an empty slot makes the whole call fail.
\<close>

definition stabilizeFrames :: "frame option list \<Rightarrow> error + frame list" where
  "stabilizeFrames frameBuffers =
     (case those frameBuffers of
        None \<Rightarrow> Inl InvalidInput
      | Some bufs \<Rightarrow> Inr (stabilizeDecoded bufs))"

subsection \<open>Verifier\<close>

text \<open>
  The number of bytes of the raw buffer \<open>sharp(buf).ensureAlpha().raw().toBuffer()\<close>
  of a frame: four per pixel.
\<close>

definition rawLength :: "frame \<Rightarrow> nat" where
  "rawLength buf = fwidth buf * fheight buf * 4"

text \<open>
  The call \<open>pixelmatch(img1, img2, null, width, height, {threshold: 0.1})\<close> on two raw
  buffers. The library first checks its arguments: it throws
  \<open>Image sizes do not match.\<close> when the two buffers differ in length, and
  \<open>Image data size does not match width/height.\<close> when their length is not
  \<open>width * height * 4\<close>. Otherwise it returns the number of differing pixels, which
  is the parameter \<open>pixelmatch\<close> of the model.
\<close>

definition pixelmatchChecked :: "ext \<Rightarrow> frame \<Rightarrow> frame \<Rightarrow> nat \<Rightarrow> nat \<Rightarrow> error + nat" where
  "pixelmatchChecked e img1 img2 w h =
     (if rawLength img1 = rawLength img2
      then (if rawLength img1 = w * h * 4
            then Inr (pixelmatch e (fdata img1) (fdata img2) w h)
            else Inl ImageDataSizeMismatch)
      else Inl ImageSizesDoNotMatch)"

text \<open>
  The body of \<open>for (let i = 0; i < rawFrames.length - 1; i++)\<close>. An exception of
  \<open>pixelmatch\<close> leaves the loop and the verifier; the accumulator is the list of
  issues so far, or the exception.
\<close>

definition sampleCheck ::
  "ext \<Rightarrow> frame list \<Rightarrow> nat \<Rightarrow> nat \<Rightarrow> nat \<Rightarrow> error + issue list \<Rightarrow> error + issue list" where
  "sampleCheck e rawFrames maxWidth maxHeight i acc =
     (case acc of
        Inl err \<Rightarrow> Inl err
      | Inr iss \<Rightarrow>
          (case pixelmatchChecked e (rawFrames ! i) (rawFrames ! (i + 1)) maxWidth maxHeight of
             Inl err \<Rightarrow> Inl err
           | Inr diff \<Rightarrow>
               (let totalPixels = maxWidth * maxHeight;
                    diffRatio = real diff / real totalPixels
                in Inr (if diffRatio > 0.30 then iss @ [LargeVariance diffRatio] else iss))))"

text \<open>
  The set of size strings \<open>`${m.width}x${m.height}`\<close> is the list of distinct
  (width, height) pairs in order of first occurrence.
\<close>

definition verifyFrames :: "ext \<Rightarrow> frame list \<Rightarrow> error + verification" where
  "verifyFrames e frameBuffers =
     (let metas = map (\<lambda>buf. (fwidth buf, fheight buf)) frameBuffers;
          sizes = rev (remdups (rev metas));
          issues0 = (if length sizes > 1 then [InconsistentSizes sizes] else []);
          numFrames = length frameBuffers;
          outcome =
            (if numFrames > 2 then
               (let maxWidth = fst (metas ! 0);
                    maxHeight = snd (metas ! 0);
                    checkIndices = [0, floorHalf numFrames, numFrames - 1];
                    rawFrames = map (\<lambda>i. frameBuffers ! i) checkIndices
                in fold (sampleCheck e rawFrames maxWidth maxHeight)
                        [0..<length rawFrames - 1] (Inr issues0))
             else Inr issues0)
      in case outcome of
           Inl err \<Rightarrow> Inl err
         | Inr issues1 \<Rightarrow> Inr \<lparr>passed = (length issues1 = 0), issues = issues1\<rparr>)"

subsection \<open>Orchestration\<close>

definition autoFix :: "ext \<Rightarrow> options \<Rightarrow> frame list \<Rightarrow> error + autofix_result" where
  "autoFix e opts frameBuffers =
     (let frames0 = map Some frameBuffers;
          detectionResult = detectBadFrames e opts frameBuffers;
          frames1 = (if length (badFrames detectionResult) > 0
                     then replaceBadFrames frames0 (badFrames detectionResult)
                     else frames0);
          repls = (if length (badFrames detectionResult) > 0
                   then map (\<lambda>b. \<lparr>badFrame = index b, replacedWith = replacement b,
                                   entryReasons = reasons b\<rparr>)
                            (badFrames detectionResult)
                   else [])
      in case stabilizeFrames frames1 of
           Inl err \<Rightarrow> Inl err
         | Inr frames2 \<Rightarrow>
             (case verifyFrames e frames2 of
                Inl err \<Rightarrow> Inl err
              | Inr finalCheck \<Rightarrow>
                  Inr \<lparr>frames = frames2,
                       report = \<lparr>totalFrames = length frameBuffers,
                                 reportBadFrames = badFrames detectionResult,
                                 replacements = repls,
                                 stabilized = True,
                                 detectionMethods = methodsUsed detectionResult,
                                 verified = passed finalCheck,
                                 verificationDetails = finalCheck\<rparr>\<rparr>))"

section \<open>Notions for the statements and proofs\<close>

subsection \<open>Replacement\<close>

text \<open>
  A distance at which the outward search finds a frame that is not bad, and what it
  means for \<open>r\<close> to be the nearest good frame of \<open>idx\<close>, the earlier one on a tie.
\<close>

definition cand :: "nat \<Rightarrow> nat set \<Rightarrow> nat \<Rightarrow> nat \<Rightarrow> bool" where
  "cand numFrames badIndices idx d \<longleftrightarrow>
     (d \<le> idx \<and> idx - d \<notin> badIndices) \<or> (idx + d < numFrames \<and> idx + d \<notin> badIndices)"

definition nearestGood :: "nat \<Rightarrow> nat set \<Rightarrow> nat \<Rightarrow> nat \<Rightarrow> bool" where
  "nearestGood numFrames badIndices idx r \<longleftrightarrow>
     r < numFrames \<and> r \<notin> badIndices \<and>
     (\<forall>g < numFrames. g \<notin> badIndices \<longrightarrow>
        \<bar>int r - int idx\<bar> \<le> \<bar>int g - int idx\<bar> \<and>
        (\<bar>int g - int idx\<bar> = \<bar>int r - int idx\<bar> \<longrightarrow> r \<le> g))"

text \<open>
  \<^bold>\<open>The anomaly map.\<close> Every pass stores only non-empty lists, and \<open>Map.set\<close> keeps the
  keys distinct.
\<close>

definition wfMap :: "anomaly_map \<Rightarrow> bool" where
  "wfMap m \<longleftrightarrow> distinct (map fst m) \<and> (\<forall>kv \<in> set m. snd kv \<noteq> [])"

text \<open>
  What each pass appends for one frame: the opacity and halo records of method 2, the
  record of method 3 and the record of method 4 (which looks at what the frame already
  carries), as lists of at most one record. The lemmas \<open>opacityCheck_get\<close>,
  \<open>haloCheck_get\<close>, \<open>ssimFrame_get\<close> and \<open>diffFrame_get\<close> relate them to the steps of
  the passes.
\<close>

definition opacityPart :: "real \<Rightarrow> medians \<Rightarrow> frame_analysis list \<Rightarrow> frame_analysis \<Rightarrow> anomaly list" where
  "opacityPart k stats fa f =
     (if opaqueRatio (alpha f) < opacityLowerBound k fa
         \<or> opaqueRatio (alpha f) > opacityUpperBound k fa
      then [opacityAnomaly stats (opacityLowerBound k fa) (opacityUpperBound k fa)
              (opacityIQR fa) f]
      else [])"

definition haloPart :: "frame_analysis list \<Rightarrow> frame_analysis \<Rightarrow> anomaly list" where
  "haloPart fa f =
     (let q3 = quartile3 (map (\<lambda>f. semiTransRatio (alpha f)) fa);
          df = semiTransRatio (alpha f) - q3
      in if df > 0.08
         then [\<lparr>atype = halo_effect, channel = None,
                details = HaloDetails (semiTransRatio (alpha f)) q3 df,
                severity = (if df > 0.15 then severe else moderate)\<rparr>]
         else [])"

definition ssimPart :: "real \<Rightarrow> real list \<Rightarrow> nat \<Rightarrow> anomaly list" where
  "ssimPart ssimThr scores i =
     (if scores ! (i - 1) < ssimOutlierThreshold scores
         \<and> scores ! i < ssimOutlierThreshold scores
         \<and> min (scores ! (i - 1)) (scores ! i) < ssimThr
      then [\<lparr>atype = structural_damage, channel = None,
             details = SSIMDetails (scores ! (i - 1)) (scores ! i) (ssimOutlierThreshold scores),
             severity = (if min (scores ! (i - 1)) (scores ! i) < 0.4 then severe else moderate)\<rparr>]
      else [])"

definition diffPart :: "real \<Rightarrow> real list \<Rightarrow> nat \<Rightarrow> anomaly list \<Rightarrow> anomaly list" where
  "diffPart pixelDiffThr dfs i old =
     (let medianDiff = getMedian dfs;
          outlierThreshold = max (medianDiff * 2.5) pixelDiffThr;
          avgDiff = (dfs ! (i - 1) + dfs ! i) / 2
      in if avgDiff > outlierThreshold \<and> \<not> (\<exists>a \<in> set old. atype a = structural_damage)
         then [\<lparr>atype = pixel_outlier, channel = None,
                details = DiffDetails avgDiff medianDiff outlierThreshold,
                severity = (if avgDiff > medianDiff * 4 then severe else moderate)\<rparr>]
         else [])"

text \<open>
  The anomalies of frame \<open>i\<close> after the four passes, in the order in which they are
  pushed, and the record of \<open>badFrames\<close> built from them. Lemmas
  \<open>collectAnomalies_get\<close> and \<open>detectBadFrames_char\<close> show that the map and the list
  that \<open>detectBadFrames\<close> builds are these.
\<close>

definition frameAnomaliesAt :: "ext \<Rightarrow> options \<Rightarrow> frame list \<Rightarrow> nat \<Rightarrow> anomaly list" where
  "frameAnomaliesAt e opts fs i =
     (let n = length fs;
          fa = analyzeAll fs;
          stats = calculateMedianStats fa;
          h = histogramAnomalies (colorRatioThreshold opts) stats (fa ! i);
          a = opacityPart (opacityIQRMultiplier opts) stats fa (fa ! i) @ haloPart fa (fa ! i);
          s = (if 1 \<le> i \<and> i < n - 1
               then ssimPart (ssimThreshold opts) (adjacentScores e fs) i else []);
          d = (if 1 \<le> i \<and> i < n - 1
               then diffPart (pixelDiffThreshold opts) (consecutiveDiffs e fs) i (h @ a @ s)
               else [])
      in if i < n then h @ a @ s @ d else [])"

definition mkBadFrame :: "nat \<Rightarrow> nat set \<Rightarrow> (nat \<Rightarrow> anomaly list) \<Rightarrow> nat \<Rightarrow> bad_frame" where
  "mkBadFrame n bad rs i =
     \<lparr>index = i, reasons = rs i, replacement = resolveReplacement n bad i,
      frameSeverity = reasonsSeverity (rs i)\<rparr>"

text \<open>
  The condition under which method 1 pushes a \<open>color_loss\<close> record for a channel,
  and that record.
\<close>

definition colorLossCond :: "real \<Rightarrow> medians \<Rightarrow> frame_analysis \<Rightarrow> channel \<Rightarrow> bool" where
  "colorLossCond thr stats f ch \<longleftrightarrow>
     50 < channelMedian stats ch
     \<and> real (channelCount (colors f) ch) / real (channelMedian stats ch) < thr"

definition colorLossRecord :: "medians \<Rightarrow> frame_analysis \<Rightarrow> channel \<Rightarrow> anomaly" where
  "colorLossRecord stats f ch =
     \<lparr>atype = color_loss, channel = Some ch,
      details = ColorDetails (channelCount (colors f) ch) (channelMedian stats ch)
                  (real (channelCount (colors f) ch) / real (channelMedian stats ch)),
      severity = (if real (channelCount (colors f) ch) / real (channelMedian stats ch) < 0.2
                  then severe else moderate)\<rparr>"

text \<open>
  \<^bold>\<open>Concrete inputs.\<close> Library functions for the evaluations: one with constant
  results, one whose score is low next to a frame that starts with the byte 9, one
  whose pixel difference counts every pixel of two different buffers. Frames of a
  single pixel, and one-row frames made of two runs of equal pixels.
\<close>

definition fixedExt :: ext where
  "fixedExt = \<lparr>resizeContain = (\<lambda>buf w h. fdata buf), pixelmatch = (\<lambda>a b w h. 0),
               calculateSimplifiedSSIM = (\<lambda>a b w h. 1)\<rparr>"

definition greenPx :: "nat list" where "greenPx = [60, 120, 50, 255]"

definition brownPx :: "nat list" where "brownPx = [120, 90, 60, 255]"

definition darkPx :: "nat list" where "darkPx = [10, 10, 10, 255]"

definition whitePx :: "nat list" where "whitePx = [255, 255, 255, 255]"

definition twoTone :: "nat \<Rightarrow> nat list \<Rightarrow> nat \<Rightarrow> nat list \<Rightarrow> frame" where
  "twoTone n p m q =
     \<lparr>fwidth = n + m, fheight = 1, fdata = concat (replicate n p) @ concat (replicate m q)\<rparr>"

definition allBadFrames :: "frame list" where
  "allBadFrames = [twoTone 51 brownPx 51 darkPx, twoTone 51 greenPx 51 darkPx,
                   twoTone 51 greenPx 51 brownPx]"

definition onePixel :: "nat \<Rightarrow> nat \<Rightarrow> frame" where
  "onePixel r a = \<lparr>fwidth = 1, fheight = 1, fdata = [r, 0, 0, a]\<rparr>"

definition fourFrames :: "frame list" where
  "fourFrames = [onePixel 0 255, onePixel 0 255, onePixel 0 255, onePixel 0 0]"

definition markerExt :: ext where
  "markerExt = \<lparr>resizeContain = (\<lambda>buf w h. fdata buf), pixelmatch = (\<lambda>a b w h. 0),
               calculateSimplifiedSSIM =
                 (\<lambda>a b w h. if take 1 a = [9] \<or> take 1 b = [9] then 1 / 10 else 9 / 10)\<rparr>"

definition nineFrames :: "frame list" where
  "nineFrames = [onePixel 0 255, onePixel 0 255, onePixel 0 255, onePixel 0 255, onePixel 9 255,
                 onePixel 0 255, onePixel 0 255, onePixel 0 255, onePixel 0 255]"

definition washedFrames :: "frame list" where
  "washedFrames = [twoTone 60 greenPx 0 whitePx, twoTone 6 greenPx 54 whitePx,
                   twoTone 60 greenPx 0 whitePx]"

definition fiveFrames :: "frame list" where
  "fiveFrames = [onePixel 0 0, onePixel 0 0, onePixel 0 0, onePixel 0 0, onePixel 0 255]"

definition differExt :: ext where
  "differExt = \<lparr>resizeContain = (\<lambda>buf w h. fdata buf),
                pixelmatch = (\<lambda>a b w h. if a = b then 0 else w * h),
                calculateSimplifiedSSIM = (\<lambda>a b w h. 1)\<rparr>"

text \<open>
  \<^bold>\<open>Verifier.\<close> The ratio the verifier computes for the frames at positions \<open>a\<close> and
  \<open>b\<close>: \<open>pixelmatch\<close> on their raw buffers with the width and height of frame 0,
  divided by the number of pixels of frame 0.
\<close>

definition sampleRatio :: "ext \<Rightarrow> frame list \<Rightarrow> nat \<Rightarrow> nat \<Rightarrow> real" where
  "sampleRatio e fs a b =
     real (pixelmatch e (fdata (fs ! a)) (fdata (fs ! b)) (fwidth (fs ! 0)) (fheight (fs ! 0)))
       / real (fwidth (fs ! 0) * fheight (fs ! 0))"

text \<open>
  The raw buffers of the three sampled frames (first, middle, last) have one length;
  then both calls of \<open>pixelmatch\<close> pass its argument checks.
\<close>

definition samplesMatch :: "frame list \<Rightarrow> bool" where
  "samplesMatch fs \<longleftrightarrow>
     rawLength (fs ! 0) = rawLength (fs ! (length fs div 2))
     \<and> rawLength (fs ! (length fs div 2)) = rawLength (fs ! (length fs - 1))"

text \<open>The issues the verifier returns when it returns, in the order it pushes them.\<close>

definition expectedIssues :: "ext \<Rightarrow> frame list \<Rightarrow> issue list" where
  "expectedIssues e fs =
     (if 1 < length (rev (remdups (rev (map (\<lambda>buf. (fwidth buf, fheight buf)) fs))))
      then [InconsistentSizes (rev (remdups (rev (map (\<lambda>buf. (fwidth buf, fheight buf)) fs))))]
      else [])
     @ (if 2 < length fs \<and> 0.30 < sampleRatio e fs 0 (length fs div 2)
        then [LargeVariance (sampleRatio e fs 0 (length fs div 2))] else [])
     @ (if 2 < length fs \<and> 0.30 < sampleRatio e fs (length fs div 2) (length fs - 1)
        then [LargeVariance (sampleRatio e fs (length fs div 2) (length fs - 1))] else [])"


text \<open>
  \<^bold>\<open>Stabilizer.\<close> The test of \<open>findContentBounds\<close> on pixel \<open>(x, y)\<close>, the set of
  pixels of a \<open>w \<times> h\<close> image that pass it, the invariant of the scan (the
  accumulator is the initial one while nothing was found, and otherwise bounds every
  pixel found, each bound being attained), and what it means for a rectangle to be
  the bounding box of a non-empty set of pixels.
\<close>

definition isContent :: "nat list \<Rightarrow> nat \<Rightarrow> nat \<Rightarrow> nat \<Rightarrow> bool" where
  "isContent d w x y \<longleftrightarrow>
     (y * w + x) * 4 + 3 < length d \<and> d ! ((y * w + x) * 4 + 3) > ALPHA_THRESHOLD"

definition contentSet :: "nat list \<Rightarrow> nat \<Rightarrow> nat \<Rightarrow> (nat \<times> nat) set" where
  "contentSet d w h = {(x, y). x < w \<and> y < h \<and> isContent d w x y}"

definition bboxInv :: "nat \<Rightarrow> nat \<Rightarrow> (nat \<times> nat) set \<Rightarrow> nat \<times> nat \<times> nat \<times> nat \<Rightarrow> bool" where
  "bboxInv w h S acc \<longleftrightarrow>
     (case acc of (a, b, c, d) \<Rightarrow>
        if S = {} then acc = (w, 0, h, 0)
        else (\<forall>p \<in> S. a \<le> fst p \<and> fst p \<le> b \<and> c \<le> snd p \<and> snd p \<le> d)
           \<and> (\<exists>y. (a, y) \<in> S) \<and> (\<exists>y. (b, y) \<in> S)
           \<and> (\<exists>x. (x, c) \<in> S) \<and> (\<exists>x. (x, d) \<in> S))"

definition tightBox :: "(nat \<times> nat) set \<Rightarrow> rect \<Rightarrow> bool" where
  "tightBox S r \<longleftrightarrow>
     0 < rwidth r \<and> 0 < rheight r
     \<and> (\<forall>p \<in> S. rx r \<le> fst p \<and> fst p < rx r + rwidth r
                 \<and> ry r \<le> snd p \<and> snd p < ry r + rheight r)
     \<and> (\<exists>y. (rx r, y) \<in> S) \<and> (\<exists>y. (rx r + rwidth r - 1, y) \<in> S)
     \<and> (\<exists>x. (x, ry r) \<in> S) \<and> (\<exists>x. (x, ry r + rheight r - 1) \<in> S)"

text \<open>
  A decoded frame: positive width and height, four bytes per pixel. The pixels of a
  frame with alpha above the threshold.
\<close>

definition wfFrame :: "frame \<Rightarrow> bool" where
  "wfFrame f \<longleftrightarrow>
     0 < fwidth f \<and> 0 < fheight f \<and> length (fdata f) = fwidth f * fheight f * 4"

definition frameContent :: "frame \<Rightarrow> (nat \<times> nat) set" where
  "frameContent f = contentSet (fdata f) (fwidth f) (fheight f)"

section \<open>Properties\<close>

subsection \<open>Nearest-rank indices\<close>

lemma floorQ1_div: "floorQ1 n = n div 4"
proof -
  have "real n * 0.25 = real n / real 4" by simp
  then have "\<lfloor>real n * 0.25\<rfloor> = int (n div 4)"
    by (simp only: floor_divide_of_nat_eq)
  then show ?thesis by (simp add: floorQ1_def)
qed

lemma floorQ3_div: "floorQ3 n = (3 * n) div 4"
proof -
  have "real n * 0.75 = real (3 * n) / real 4" by simp
  then have "\<lfloor>real n * 0.75\<rfloor> = int ((3 * n) div 4)"
    by (simp only: floor_divide_of_nat_eq)
  then show ?thesis by (simp add: floorQ3_def)
qed

lemma floorHalf_div: "floorHalf n = n div 2"
proof -
  have "real n / 2 = real n / real 2" by simp
  then have "\<lfloor>real n / 2\<rfloor> = int (n div 2)"
    by (simp only: floor_divide_of_nat_eq)
  then show ?thesis by (simp add: floorHalf_def)
qed

lemma getMedian_nth: "getMedian vs = sort vs ! (length vs div 2)"
  by (simp add: getMedian_def floorHalf_div)

lemma quartile1_nth: "quartile1 vs = sort vs ! (length vs div 4)"
  by (simp add: quartile1_def floorQ1_div)

lemma quartile3_nth: "quartile3 vs = sort vs ! (3 * length vs div 4)"
  by (simp add: quartile3_def floorQ3_div)

lemma sort_nth_mem: "i < length vs \<Longrightarrow> sort vs ! i \<in> set vs"
proof -
  assume "i < length vs"
  then have "sort vs ! i \<in> set (sort vs)" by (simp del: set_sort)
  then show ?thesis by simp
qed

text \<open>
  Claim C3. For every non-empty list of values, the median is \<open>sorted[floor(n/2)]\<close>
  and the quartiles are \<open>sorted[floor(n*0.25)]\<close> and \<open>sorted[floor(n*0.75)]\<close>: the
  selections agree with the reference nearest-rank rule, the three indices lie inside
  the list, and each selected value is one of the input values (nothing is
  interpolated). For the opacity ratios 0.1, 0.5, 0.5, 0.5, 0.9 both Q1 and Q3 are 0.5
  and equal the reference rule's values.
\<close>

theorem nearest_rank_selection:
  fixes vs :: "('a::linorder) list"
  assumes "vs \<noteq> []"
  shows "getMedian vs = sort vs ! (length vs div 2)
       \<and> quartile1 vs = sort vs ! (length vs div 4)
       \<and> quartile3 vs = sort vs ! (3 * length vs div 4)
       \<and> getMedian vs = nearestRank (1/2) vs
       \<and> quartile1 vs = nearestRank 0.25 vs
       \<and> quartile3 vs = nearestRank 0.75 vs
       \<and> length vs div 2 < length vs \<and> length vs div 4 < length vs
       \<and> 3 * length vs div 4 < length vs
       \<and> getMedian vs \<in> set vs \<and> quartile1 vs \<in> set vs \<and> quartile3 vs \<in> set vs
       \<and> quartile1 [0.1, 0.5, 0.5, 0.5, 0.9 :: real] = 0.5
       \<and> quartile3 [0.1, 0.5, 0.5, 0.5, 0.9 :: real] = 0.5
       \<and> quartile1 [0.1, 0.5, 0.5, 0.5, 0.9 :: real] = nearestRank 0.25 [0.1, 0.5, 0.5, 0.5, 0.9]
       \<and> quartile3 [0.1, 0.5, 0.5, 0.5, 0.9 :: real] = nearestRank 0.75 [0.1, 0.5, 0.5, 0.5, 0.9]"
proof -
  have n: "0 < length vs" using assms by simp
  have i2: "length vs div 2 < length vs" using n by arith
  have i4: "length vs div 4 < length vs" using n by arith
  have i34: "3 * length vs div 4 < length vs" using n by arith
  have nr2: "nearestRank (1/2) vs = sort vs ! (length vs div 2)"
    using floorHalf_div [of "length vs"] by (simp add: nearestRank_def floorHalf_def)
  have nr4: "nearestRank 0.25 vs = sort vs ! (length vs div 4)"
    using floorQ1_div [of "length vs"] by (simp add: nearestRank_def floorQ1_def)
  have nr34: "nearestRank 0.75 vs = sort vs ! (3 * length vs div 4)"
    using floorQ3_div [of "length vs"] by (simp add: nearestRank_def floorQ3_def)
  have e1: "quartile1 [0.1, 0.5, 0.5, 0.5, 0.9 :: real] = 0.5"
    by (simp add: quartile1_nth)
  have e3: "quartile3 [0.1, 0.5, 0.5, 0.5, 0.9 :: real] = 0.5"
    by (simp add: quartile3_nth)
  have r1: "nearestRank 0.25 [0.1, 0.5, 0.5, 0.5, 0.9 :: real] = 0.5"
    using floorQ1_div [of 5] by (simp add: nearestRank_def floorQ1_def)
  have r3: "nearestRank 0.75 [0.1, 0.5, 0.5, 0.5, 0.9 :: real] = 0.5"
    using floorQ3_div [of 5] by (simp add: nearestRank_def floorQ3_def)
  show ?thesis
    using i2 i4 i34 nr2 nr4 nr34 e1 e3 r1 r3
    by (simp add: getMedian_nth quartile1_nth quartile3_nth sort_nth_mem)
qed

theorem nearest_rank_selection_witness:
  "[0.1, 0.5, 0.5, 0.5, 0.9 :: real] \<noteq> []
   \<and> getMedian [0.1, 0.5, 0.5, 0.5, 0.9 :: real] = 0.5
   \<and> quartile1 [0.1, 0.5, 0.5, 0.5, 0.9 :: real] = 0.5
   \<and> quartile3 [0.1, 0.5, 0.5, 0.5, 0.9 :: real] = 0.5"
  using nearest_rank_selection [of "[0.1, 0.5, 0.5, 0.5, 0.9 :: real]"]
  by simp

subsection \<open>Replacement resolver\<close>

lemma searchOutward_none:
  "\<forall>d \<in> set ds. \<not> cand n bad idx d \<Longrightarrow> searchOutward n bad idx ds repl = repl"
  by (induction ds) (auto simp: cand_def)

lemma searchOutward_first:
  "\<forall>d \<in> set ds1. \<not> cand n bad idx d \<Longrightarrow> cand n bad idx d \<Longrightarrow>
   searchOutward n bad idx (ds1 @ d # ds2) repl =
     (if d \<le> idx \<and> idx - d \<notin> bad then idx - d else idx + d)"
  by (induction ds1) (auto simp: cand_def)

lemma upt_split: "a \<le> d \<Longrightarrow> d < n \<Longrightarrow> [a..<n] = [a..<d] @ d # [Suc d..<n]"
proof -
  assume a: "a \<le> d" and d: "d < n"
  have "[a..<n] = [a..<d] @ [d..<n]"
    using a d by (metis le_Suc_ex less_imp_le_nat upt_add_eq_append)
  then show ?thesis using d by (simp add: upt_conv_Cons)
qed

lemma searchOutward_upt:
  assumes "a \<le> d" "d < n" "cand n bad idx d" "\<forall>d'. a \<le> d' \<and> d' < d \<longrightarrow> \<not> cand n bad idx d'"
  shows "searchOutward n bad idx [a..<n] repl =
           (if d \<le> idx \<and> idx - d \<notin> bad then idx - d else idx + d)"
proof -
  have "\<forall>d' \<in> set [a..<d]. \<not> cand n bad idx d'" using assms(4) by simp
  then show ?thesis
    using searchOutward_first [of "[a..<d]" n bad idx d "[Suc d..<n]" repl] assms(1-3)
    by (simp add: upt_split)
qed

lemma good_cand:
  assumes "g < n" "g \<notin> bad" "idx \<in> bad" "idx < n"
  shows "cand n bad idx (nat \<bar>int g - int idx\<bar>) \<and> 1 \<le> nat \<bar>int g - int idx\<bar>
         \<and> nat \<bar>int g - int idx\<bar> < n"
proof -
  have ne: "g \<noteq> idx" using assms by auto
  show ?thesis
  proof (cases "g < idx")
    case True
    have e: "nat \<bar>int g - int idx\<bar> = idx - g" using True by simp
    have "cand n bad idx (idx - g) \<and> 1 \<le> idx - g \<and> idx - g < n"
      using True assms by (auto simp: cand_def)
    then show ?thesis unfolding e .
  next
    case False
    then have gt: "idx < g" using ne by simp
    have e: "nat \<bar>int g - int idx\<bar> = g - idx" using gt by simp
    have "cand n bad idx (g - idx) \<and> 1 \<le> g - idx \<and> g - idx < n"
      using gt assms by (auto simp: cand_def)
    then show ?thesis unfolding e .
  qed
qed

lemma resolve_found:
  assumes c: "cand n bad idx d" and lo: "1 \<le> d"
    and least: "\<forall>d'. 1 \<le> d' \<and> d' < d \<longrightarrow> \<not> cand n bad idx d'"
    and ib: "idx \<in> bad" and idn: "idx < n"
    and r: "r = (if d \<le> idx \<and> idx - d \<notin> bad then idx - d else idx + d)"
  shows "nearestGood n bad idx r \<and> r \<noteq> idx"
proof -
  have rd: "\<bar>int r - int idx\<bar> = int d" using r c by (auto simp: cand_def)
  have rgood: "r < n \<and> r \<notin> bad" using r c idn by (auto simp: cand_def)
  have "\<bar>int r - int idx\<bar> \<le> \<bar>int g - int idx\<bar> \<and>
        (\<bar>int g - int idx\<bar> = \<bar>int r - int idx\<bar> \<longrightarrow> r \<le> g)"
    if g: "g < n" "g \<notin> bad" for g
  proof -
    let ?dg = "nat \<bar>int g - int idx\<bar>"
    have gc: "cand n bad idx ?dg" "1 \<le> ?dg" using good_cand [OF g ib idn] by auto
    have le: "d \<le> ?dg" using least gc by (meson not_le_imp_less)
    have tie: "r \<le> g" if e: "\<bar>int g - int idx\<bar> = \<bar>int r - int idx\<bar>"
    proof (cases "d \<le> idx \<and> idx - d \<notin> bad")
      case True
      then have "r = idx - d" using r by simp
      then show ?thesis using e rd by linarith
    next
      case False
      have rr: "r = idx + d" using r False by (auto split: if_splits)
      have "g \<noteq> idx - d \<or> \<not> d \<le> idx" using False g by auto
      then show ?thesis using e rd rr by linarith
    qed
    show ?thesis using le rd tie by linarith
  qed
  then show ?thesis using rgood rd lo by (auto simp: nearestGood_def)
qed

lemma resolveReplacement_spec:
  assumes n3: "3 \<le> n" and idn: "idx < n" and ib: "idx \<in> bad"
  shows "(0 < idx \<and> idx - 1 \<notin> bad \<longrightarrow> resolveReplacement n bad idx = idx - 1)
       \<and> (\<not> (0 < idx \<and> idx - 1 \<notin> bad) \<and> idx < n - 1 \<and> idx + 1 \<notin> bad
            \<longrightarrow> resolveReplacement n bad idx = idx + 1)
       \<and> resolveReplacement n bad idx \<noteq> idx
       \<and> resolveReplacement n bad idx < n
       \<and> ((\<exists>g < n. g \<notin> bad) \<longrightarrow> nearestGood n bad idx (resolveReplacement n bad idx))
       \<and> ((\<forall>g < n. g \<in> bad) \<longrightarrow>
            resolveReplacement n bad idx = (if 0 < idx then idx - 1 else idx + 1))"
proof -
  let ?r = "resolveReplacement n bad idx"
  have c1: "cand n bad idx 1 \<longleftrightarrow> (0 < idx \<and> idx - 1 \<notin> bad) \<or> (idx < n - 1 \<and> idx + 1 \<notin> bad)"
    using n3 by (auto simp: cand_def)
  have A: "0 < idx \<and> idx - 1 \<notin> bad \<longrightarrow> ?r = idx - 1"
    by (simp add: resolveReplacement_def)
  have B: "\<not> (0 < idx \<and> idx - 1 \<notin> bad) \<and> idx < n - 1 \<and> idx + 1 \<notin> bad \<longrightarrow> ?r = idx + 1"
    by (auto simp: resolveReplacement_def)
  have r1: "cand n bad idx 1 \<Longrightarrow>
            ?r = (if 1 \<le> idx \<and> idx - 1 \<notin> bad then idx - 1 else idx + 1)"
    using A B c1 by auto
  have r2: "\<not> cand n bad idx 1 \<Longrightarrow>
            ?r = searchOutward n bad idx [2..<n] (if 0 < idx then idx - 1 else idx + 1)"
    using c1 by (auto simp: resolveReplacement_def Let_def)
  have fallback: "(if 0 < idx then idx - 1 else idx + 1) \<noteq> idx
                  \<and> (if 0 < idx then idx - 1 else idx + 1) < n"
    using n3 idn by auto
  show ?thesis
  proof (cases "\<exists>d. 1 \<le> d \<and> d < n \<and> cand n bad idx d")
    case True
    then obtain d where d: "1 \<le> d \<and> d < n \<and> cand n bad idx d"
      and least: "\<forall>d' < d. \<not> (1 \<le> d' \<and> d' < n \<and> cand n bad idx d')"
      using exists_least_iff [of "\<lambda>d. 1 \<le> d \<and> d < n \<and> cand n bad idx d"] by blast
    have least': "\<forall>d'. 1 \<le> d' \<and> d' < d \<longrightarrow> \<not> cand n bad idx d'"
      using least d by auto
    have rv: "?r = (if d \<le> idx \<and> idx - d \<notin> bad then idx - d else idx + d)"
    proof (cases "d = 1")
      case True
      then show ?thesis using r1 d by simp
    next
      case False
      then have d2: "2 \<le> d" using d by simp
      have nc1: "\<not> cand n bad idx 1" using least' d2 by auto
      have "\<forall>d'. 2 \<le> d' \<and> d' < d \<longrightarrow> \<not> cand n bad idx d'" using least' by auto
      then show ?thesis
        using r2 [OF nc1] searchOutward_upt [of 2 d n bad idx] d2 d by simp
    qed
    have ng: "nearestGood n bad idx ?r \<and> ?r \<noteq> idx"
      using resolve_found [OF _ _ least' ib idn rv] d by simp
    have "\<not> (\<forall>g < n. g \<in> bad)" using ng by (auto simp: nearestGood_def)
    then show ?thesis using A B ng by (auto simp: nearestGood_def)
  next
    case False
    then have none: "\<forall>d. 1 \<le> d \<and> d < n \<longrightarrow> \<not> cand n bad idx d" by blast
    have nog: "\<not> (\<exists>g < n. g \<notin> bad)"
    proof
      assume "\<exists>g < n. g \<notin> bad"
      then obtain g where "g < n" "g \<notin> bad" by blast
      then show False using good_cand [of g n bad idx] ib idn none by blast
    qed
    have nc1: "\<not> cand n bad idx 1" using none n3 by simp
    have "\<forall>d \<in> set [2..<n]. \<not> cand n bad idx d" using none by simp
    then have "?r = (if 0 < idx then idx - 1 else idx + 1)"
      using r2 [OF nc1] searchOutward_none by simp
    then show ?thesis using fallback nog A B by auto
  qed
qed

subsection \<open>The anomaly map as an association list\<close>

lemma getOrEmpty_Nil: "getOrEmpty [] j = []"
  by (simp add: getOrEmpty_def)

lemma getOrEmpty_update:
  "getOrEmpty (AList.update k v m) j = (if j = k then v else getOrEmpty m j)"
  by (simp add: getOrEmpty_def update_conv')

lemma set_update_subset: "set (AList.update k v m) \<subseteq> insert (k, v) (set m)"
  by (induction m) auto

lemma wfMap_Nil: "wfMap []"
  by (simp add: wfMap_def)

lemma wfMap_update: "wfMap m \<Longrightarrow> v \<noteq> [] \<Longrightarrow> wfMap (AList.update k v m)"
  using set_update_subset [of k v m] by (auto simp: wfMap_def distinct_update)

lemma wfMap_mem: "wfMap m \<Longrightarrow> (k, v) \<in> set m \<longleftrightarrow> (v = getOrEmpty m k \<and> v \<noteq> [])"
proof -
  assume w: "wfMap m"
  then have d: "distinct (map fst m)" by (simp add: wfMap_def)
  show ?thesis
  proof
    assume kv: "(k, v) \<in> set m"
    then have "map_of m k = Some v" using d by simp
    then show "v = getOrEmpty m k \<and> v \<noteq> []"
      using w kv by (auto simp: getOrEmpty_def wfMap_def)
  next
    assume "v = getOrEmpty m k \<and> v \<noteq> []"
    then show "(k, v) \<in> set m"
      by (auto simp: getOrEmpty_def split: option.splits dest: map_of_SomeD)
  qed
qed

lemma wfMap_keys: "wfMap m \<Longrightarrow> k \<in> fst ` set m \<longleftrightarrow> getOrEmpty m k \<noteq> []"
  using wfMap_mem [of m k] by force

text \<open>A fold whose steps append to the entry of their own key.\<close>

lemma fold_steps_get:
  assumes step: "\<And>x m j. getOrEmpty (step x m) j =
                   (if j = key x then upd x (getOrEmpty m j) else getOrEmpty m j)"
    and d: "distinct (map key xs)"
    and inv: "\<And>x. x \<in> set xs \<Longrightarrow> sel (key x) = x"
  shows "getOrEmpty (fold step xs m) j =
           (if j \<in> key ` set xs then upd (sel j) (getOrEmpty m j) else getOrEmpty m j)"
  using d inv
proof (induction xs arbitrary: m)
  case Nil
  then show ?case by simp
next
  case (Cons x xs)
  have ih: "getOrEmpty (fold step xs (step x m)) j =
           (if j \<in> key ` set xs then upd (sel j) (getOrEmpty (step x m) j)
            else getOrEmpty (step x m) j)"
    using Cons.IH [of "step x m"] Cons.prems by simp
  have nk: "key x \<notin> key ` set xs" using Cons.prems(1) by simp
  have sx: "sel (key x) = x" using Cons.prems(2) by simp
  show ?case
  proof (cases "j = key x")
    case True
    then show ?thesis using ih nk sx by (simp add: step)
  next
    case False
    then show ?thesis using ih by (simp add: step)
  qed
qed

lemma fold_steps_wf:
  assumes "\<And>x m. wfMap m \<Longrightarrow> wfMap (step x m)" and "wfMap m"
  shows "wfMap (fold step xs m)"
  using assms(2) by (induction xs arbitrary: m) (simp_all add: assms(1))

subsection \<open>The steps of the four passes\<close>

lemma histogramFrame_get:
  "getOrEmpty (histogramFrame thr stats f m) j =
     (if j = findex f
      then (if histogramAnomalies thr stats f \<noteq> [] then histogramAnomalies thr stats f
            else getOrEmpty m j)
      else getOrEmpty m j)"
  by (simp add: histogramFrame_def Let_def getOrEmpty_update)

lemma histogramFrame_wf: "wfMap m \<Longrightarrow> wfMap (histogramFrame thr stats f m)"
  by (simp add: histogramFrame_def Let_def wfMap_update)

lemma opacityCheck_get:
  "getOrEmpty (opacityCheck stats (opacityLowerBound k fa) (opacityUpperBound k fa)
                 (opacityIQR fa) f m) j =
     (if j = findex f then getOrEmpty m j @ opacityPart k stats fa f else getOrEmpty m j)"
  by (simp add: opacityCheck_def opacityPart_def getOrEmpty_update)

lemma opacityCheck_wf: "wfMap m \<Longrightarrow> wfMap (opacityCheck stats lo up iqr f m)"
  by (simp add: opacityCheck_def wfMap_update)

lemma haloCheck_get:
  "getOrEmpty (haloCheck fa f m) j =
     (if j = findex f then getOrEmpty m j @ haloPart fa f else getOrEmpty m j)"
  by (simp add: haloCheck_def haloPart_def Let_def getOrEmpty_update)

lemma haloCheck_wf: "wfMap m \<Longrightarrow> wfMap (haloCheck fa f m)"
  by (simp add: haloCheck_def Let_def wfMap_update)

lemma alphaFrame_get:
  "getOrEmpty (alphaFrame k stats fa f m) j =
     (if j = findex f then getOrEmpty m j @ opacityPart k stats fa f @ haloPart fa f
      else getOrEmpty m j)"
  by (simp add: alphaFrame_def haloCheck_get opacityCheck_get)

lemma alphaFrame_wf: "wfMap m \<Longrightarrow> wfMap (alphaFrame k stats fa f m)"
  by (simp add: alphaFrame_def haloCheck_wf opacityCheck_wf)

lemma ssimFrame_get:
  "getOrEmpty (ssimFrame thr scores i m) j =
     (if j = i then getOrEmpty m j @ ssimPart thr scores i else getOrEmpty m j)"
  by (simp add: ssimFrame_def ssimPart_def Let_def getOrEmpty_update)

lemma ssimFrame_wf: "wfMap m \<Longrightarrow> wfMap (ssimFrame thr scores i m)"
  by (simp add: ssimFrame_def Let_def wfMap_update)

lemma diffFrame_get:
  "getOrEmpty (diffFrame thr dfs i m) j =
     (if j = i then getOrEmpty m j @ diffPart thr dfs i (getOrEmpty m j) else getOrEmpty m j)"
  by (simp add: diffFrame_def diffPart_def Let_def getOrEmpty_update)

lemma diffFrame_wf: "wfMap m \<Longrightarrow> wfMap (diffFrame thr dfs i m)"
  by (simp add: diffFrame_def Let_def wfMap_update)

subsection \<open>The anomaly map after the four passes\<close>

lemma length_analyzeAll: "length (analyzeAll fs) = length fs"
  by (simp add: analyzeAll_def)

lemma nth_analyzeAll: "i < length fs \<Longrightarrow> analyzeAll fs ! i = analyzeFrame i (fs ! i)"
  by (simp add: analyzeAll_def)

lemma findex_analyzeAll: "i < length fs \<Longrightarrow> findex (analyzeAll fs ! i) = i"
  by (simp add: nth_analyzeAll analyzeFrame_def Let_def)

lemma map_findex_analyzeAll: "map findex (analyzeAll fs) = [0..<length fs]"
  by (rule nth_equalityI) (simp_all add: length_analyzeAll findex_analyzeAll)

lemma sel_analyzeAll: "x \<in> set (analyzeAll fs) \<Longrightarrow> analyzeAll fs ! findex x = x"
proof -
  assume "x \<in> set (analyzeAll fs)"
  then obtain i where i: "i < length fs" "x = analyzeAll fs ! i"
    by (auto simp: in_set_conv_nth length_analyzeAll)
  then show ?thesis by (simp add: findex_analyzeAll)
qed

lemma findex_image_analyzeAll: "findex ` set (analyzeAll fs) = {0..<length fs}"
proof -
  have "findex ` set (analyzeAll fs) = set (map findex (analyzeAll fs))" by simp
  then show ?thesis by (simp only: map_findex_analyzeAll set_upt)
qed

lemma method1_get:
  "getOrEmpty (method1 thr stats (analyzeAll fs) []) j =
     (if j < length fs then histogramAnomalies thr stats (analyzeAll fs ! j) else [])"
proof -
  have "getOrEmpty (fold (histogramFrame thr stats) (analyzeAll fs) []) j =
          (if j \<in> findex ` set (analyzeAll fs)
           then (\<lambda>x old. if histogramAnomalies thr stats x \<noteq> []
                          then histogramAnomalies thr stats x else old)
                  (analyzeAll fs ! j) (getOrEmpty [] j)
           else getOrEmpty [] j)"
    by (rule fold_steps_get)
       (simp_all add: histogramFrame_get map_findex_analyzeAll sel_analyzeAll)
  then show ?thesis
    by (simp add: method1_def findex_image_analyzeAll getOrEmpty_Nil)
qed

lemma method2_get:
  "getOrEmpty (method2 k stats (analyzeAll fs) m) j =
     (if j < length fs
      then getOrEmpty m j @ opacityPart k stats (analyzeAll fs) (analyzeAll fs ! j)
             @ haloPart (analyzeAll fs) (analyzeAll fs ! j)
      else getOrEmpty m j)"
proof -
  have "getOrEmpty (fold (alphaFrame k stats (analyzeAll fs)) (analyzeAll fs) m) j =
          (if j \<in> findex ` set (analyzeAll fs)
           then (\<lambda>x old. old @ opacityPart k stats (analyzeAll fs) x @ haloPart (analyzeAll fs) x)
                  (analyzeAll fs ! j) (getOrEmpty m j)
           else getOrEmpty m j)"
    by (rule fold_steps_get)
       (simp_all add: alphaFrame_get map_findex_analyzeAll sel_analyzeAll)
  then show ?thesis
    by (simp add: method2_def findex_image_analyzeAll)
qed

lemma method3_get:
  "getOrEmpty (method3 thr scores n m) j =
     (if 1 \<le> j \<and> j < n - 1 then getOrEmpty m j @ ssimPart thr scores j else getOrEmpty m j)"
proof -
  have "getOrEmpty (fold (ssimFrame thr scores) [1..<n - 1] m) j =
          (if j \<in> (\<lambda>i. i) ` set [1..<n - 1]
           then (\<lambda>i old. old @ ssimPart thr scores i) ((\<lambda>i. i) j) (getOrEmpty m j)
           else getOrEmpty m j)"
    by (rule fold_steps_get) (simp_all add: ssimFrame_get)
  then show ?thesis by (simp add: method3_def)
qed

lemma method4_get:
  "getOrEmpty (method4 thr dfs n m) j =
     (if 1 \<le> j \<and> j < n - 1 then getOrEmpty m j @ diffPart thr dfs j (getOrEmpty m j)
      else getOrEmpty m j)"
proof -
  have "getOrEmpty (fold (diffFrame thr dfs) [1..<n - 1] m) j =
          (if j \<in> (\<lambda>i. i) ` set [1..<n - 1]
           then (\<lambda>i old. old @ diffPart thr dfs i old) ((\<lambda>i. i) j) (getOrEmpty m j)
           else getOrEmpty m j)"
    by (rule fold_steps_get) (simp_all add: diffFrame_get)
  then show ?thesis by (simp add: method4_def)
qed

lemma collectAnomalies_get:
  "getOrEmpty (collectAnomalies e opts fs) i = frameAnomaliesAt e opts fs i"
proof -
  have "i < length fs - 1 \<Longrightarrow> i < length fs" by simp
  then show ?thesis
    by (auto simp: collectAnomalies_def frameAnomaliesAt_def Let_def
          method4_get method3_get method2_get method1_get)
qed

lemma collectAnomalies_wf: "wfMap (collectAnomalies e opts fs)"
  unfolding collectAnomalies_def Let_def method1_def method2_def method3_def method4_def
  by (intro fold_steps_wf histogramFrame_wf alphaFrame_wf ssimFrame_wf diffFrame_wf wfMap_Nil)

lemma frameAnomaliesAt_range: "frameAnomaliesAt e opts fs i \<noteq> [] \<Longrightarrow> i < length fs"
  by (auto simp: frameAnomaliesAt_def Let_def split: if_splits)

lemma collectAnomalies_keys:
  "fst ` set (collectAnomalies e opts fs) = {i. frameAnomaliesAt e opts fs i \<noteq> []}"
  using wfMap_keys [OF collectAnomalies_wf, of _ e opts fs]
  by (auto simp: collectAnomalies_get)

subsection \<open>The list of bad frames\<close>

lemma map_insort_key: "map f (insort_key f x xs) = insort (f x) (map f xs)"
  by (induction xs) simp_all

lemma map_sort_key: "map f (sort_key f xs) = sort (map f xs)"
  by (induction xs) (simp_all add: map_insort_key)

lemma map_index_mkBadFrame: "map index (map (mkBadFrame n bad rs) zs) = zs"
  by (induction zs) (simp_all add: mkBadFrame_def)

lemma buildBadFrames_char:
  assumes w: "wfMap m" and k: "fst ` set m \<subseteq> {..<n}"
  shows "buildBadFrames n m =
           map (mkBadFrame n (fst ` set m) (getOrEmpty m))
               (filter (\<lambda>i. getOrEmpty m i \<noteq> []) [0..<n])"
proof -
  let ?mk = "mkBadFrame n (fst ` set m) (getOrEmpty m)"
  let ?g = "\<lambda>(idx, rs). \<lparr>index = idx, reasons = rs,
                          replacement = resolveReplacement n (fst ` set m) idx,
                          frameSeverity = reasonsSeverity rs\<rparr>"
  let ?xs = "sort_key index (map ?g m)"
  let ?ys = "map ?mk (filter (\<lambda>i. getOrEmpty m i \<noteq> []) [0..<n])"
  have bb: "buildBadFrames n m = ?xs" by (simp add: buildBadFrames_def)
  have ig: "map index (map ?g m) = map fst m" by (induction m) auto
  have mx: "map index ?xs = sort (map fst m)"
    by (simp only: map_sort_key ig)
  have d: "distinct (map fst m)" using w by (simp add: wfMap_def)
  have sx: "sorted (map index ?xs)" and dx: "distinct (map index ?xs)"
    using d by (simp_all only: mx sorted_sort distinct_sort)
  have my: "map index ?ys = filter (\<lambda>i. getOrEmpty m i \<noteq> []) [0..<n]"
    by (rule map_index_mkBadFrame)
  have sy: "sorted (map index ?ys)" and dy: "distinct (map index ?ys)"
    unfolding my by (simp_all add: sorted_wrt_filter)
  have gmk: "?g (i, v) = ?mk i" if "(i, v) \<in> set m" for i v
  proof -
    have "v = getOrEmpty m i" using that wfMap_mem [OF w, of i v] by blast
    then show ?thesis by (simp add: mkBadFrame_def)
  qed
  have sxy: "set ?xs = set ?ys"
  proof
    show "set ?xs \<subseteq> set ?ys"
    proof
      fix b assume "b \<in> set ?xs"
      then obtain i v where iv: "(i, v) \<in> set m" "b = ?g (i, v)" by auto
      have "i < n" using iv(1) k by force
      moreover have "getOrEmpty m i \<noteq> []" using wfMap_mem [OF w, of i v] iv(1) by blast
      ultimately show "b \<in> set ?ys" using gmk [OF iv(1)] iv(2) by auto
    qed
  next
    show "set ?ys \<subseteq> set ?xs"
    proof
      fix b assume "b \<in> set ?ys"
      then obtain i where i: "i < n" "getOrEmpty m i \<noteq> []" "b = ?mk i" by auto
      have "(i, getOrEmpty m i) \<in> set m" using wfMap_mem [OF w, of i "getOrEmpty m i"] i(2) by blast
      then have "?g (i, getOrEmpty m i) \<in> set ?xs" by force
      then show "b \<in> set ?xs" using i(3) by (simp add: mkBadFrame_def)
    qed
  qed
  have inj: "inj_on index (set ?xs \<union> set ?ys)"
    unfolding sxy by (auto simp: inj_on_def mkBadFrame_def)
  show ?thesis
    unfolding bb
    by (rule map_sorted_distinct_set_unique [OF inj sx dx sy dy sxy])
qed

lemma detectBadFrames_char:
  assumes "3 \<le> length fs"
  shows "badFrames (detectBadFrames e opts fs) =
           map (mkBadFrame (length fs) {i. frameAnomaliesAt e opts fs i \<noteq> []}
                  (frameAnomaliesAt e opts fs))
               (filter (\<lambda>i. frameAnomaliesAt e opts fs i \<noteq> []) [0..<length fs])"
proof -
  let ?m = "collectAnomalies e opts fs"
  have k: "fst ` set ?m \<subseteq> {..<length fs}"
    using frameAnomaliesAt_range by (auto simp: collectAnomalies_keys)
  have g: "getOrEmpty ?m = frameAnomaliesAt e opts fs"
    by (rule ext) (rule collectAnomalies_get)
  have "badFrames (detectBadFrames e opts fs) = buildBadFrames (length fs) ?m"
    using assms by (simp add: detectBadFrames_def Let_def)
  then show ?thesis
    using buildBadFrames_char [OF collectAnomalies_wf k]
    by (simp add: g collectAnomalies_keys)
qed

subsection \<open>The records of \<open>badFrames\<close>\<close>

lemma badFrames_indices:
  assumes "3 \<le> length fs"
  shows "index ` set (badFrames (detectBadFrames e opts fs)) =
           {i. frameAnomaliesAt e opts fs i \<noteq> []}"
proof -
  have "index ` set (badFrames (detectBadFrames e opts fs)) =
          set (map index (badFrames (detectBadFrames e opts fs)))" by simp
  also have "\<dots> = set (filter (\<lambda>i. frameAnomaliesAt e opts fs i \<noteq> []) [0..<length fs])"
    by (simp only: detectBadFrames_char [OF assms] map_index_mkBadFrame)
  finally show ?thesis using frameAnomaliesAt_range by auto
qed

lemma badFrames_member:
  assumes n3: "3 \<le> length fs" and b: "b \<in> set (badFrames (detectBadFrames e opts fs))"
  shows "index b < length fs \<and> frameAnomaliesAt e opts fs (index b) \<noteq> []
       \<and> reasons b = frameAnomaliesAt e opts fs (index b)
       \<and> replacement b =
           resolveReplacement (length fs)
             (index ` set (badFrames (detectBadFrames e opts fs))) (index b)
       \<and> frameSeverity b = reasonsSeverity (reasons b)"
proof -
  obtain i where i: "i < length fs" "frameAnomaliesAt e opts fs i \<noteq> []"
      "b = mkBadFrame (length fs) {i. frameAnomaliesAt e opts fs i \<noteq> []}
             (frameAnomaliesAt e opts fs) i"
    using b unfolding detectBadFrames_char [OF n3] by auto
  show ?thesis
    using i by (simp add: badFrames_indices [OF n3] mkBadFrame_def)
qed

lemma badFrames_present:
  assumes n3: "3 \<le> length fs" and "frameAnomaliesAt e opts fs i \<noteq> []"
  shows "\<exists>b \<in> set (badFrames (detectBadFrames e opts fs)).
           index b = i \<and> reasons b = frameAnomaliesAt e opts fs i"
proof -
  have "i < length fs" using assms(2) by (rule frameAnomaliesAt_range)
  then have "mkBadFrame (length fs) {i. frameAnomaliesAt e opts fs i \<noteq> []}
               (frameAnomaliesAt e opts fs) i
             \<in> set (badFrames (detectBadFrames e opts fs))"
    using assms(2) unfolding detectBadFrames_char [OF n3] by simp
  then show ?thesis by (force simp: mkBadFrame_def)
qed

lemma detected_replacement_spec:
  assumes n3: "3 \<le> length fs"
    and b: "b \<in> set (badFrames (detectBadFrames e opts fs))"
  shows "let n = length fs;
             bad = index ` set (badFrames (detectBadFrames e opts fs));
             i = index b;
             r = replacement b
         in i \<in> bad \<and> i < n
          \<and> (0 < i \<and> i - 1 \<notin> bad \<longrightarrow> r = i - 1)
          \<and> (\<not> (0 < i \<and> i - 1 \<notin> bad) \<and> i < n - 1 \<and> i + 1 \<notin> bad \<longrightarrow> r = i + 1)
          \<and> r \<noteq> i \<and> r < n
          \<and> ((\<exists>g < n. g \<notin> bad) \<longrightarrow> nearestGood n bad i r)
          \<and> ((\<forall>g < n. g \<in> bad) \<longrightarrow> r = (if 0 < i then i - 1 else i + 1))"
proof -
  let ?bad = "index ` set (badFrames (detectBadFrames e opts fs))"
  have m: "index b < length fs"
    "replacement b = resolveReplacement (length fs) ?bad (index b)"
    using badFrames_member [OF n3 b] by simp_all
  have ib: "index b \<in> ?bad" using b by simp
  show ?thesis
    using resolveReplacement_spec [OF n3 m(1) ib] ib m
    by (simp add: Let_def)
qed

subsection \<open>Verifier\<close>

lemma sizes_differ_iff:
  "1 < length (rev (remdups (rev xs))) \<longleftrightarrow> (\<exists>i < length xs. \<exists>j < length xs. xs ! i \<noteq> xs ! j)"
proof -
  have "length (rev (remdups (rev xs))) = card (set xs)"
    by (simp add: length_remdups_card_conv)
  moreover have "1 < card (set xs) \<longleftrightarrow> (\<exists>a \<in> set xs. \<exists>b \<in> set xs. a \<noteq> b)"
    using card_le_Suc0_iff_eq [of "set xs"] by (simp add: not_le [symmetric])
  moreover have "(\<exists>a \<in> set xs. \<exists>b \<in> set xs. a \<noteq> b)
                 \<longleftrightarrow> (\<exists>i < length xs. \<exists>j < length xs. xs ! i \<noteq> xs ! j)"
    by (metis in_set_conv_nth)
  ultimately show ?thesis by simp
qed

lemma pixelmatchChecked_first:
  "pixelmatchChecked e (fs ! 0) g (fwidth (fs ! 0)) (fheight (fs ! 0)) =
     (if rawLength (fs ! 0) = rawLength g
      then Inr (pixelmatch e (fdata (fs ! 0)) (fdata g) (fwidth (fs ! 0)) (fheight (fs ! 0)))
      else Inl ImageSizesDoNotMatch)"
  by (simp add: pixelmatchChecked_def rawLength_def)

lemma pixelmatchChecked_second:
  assumes "rawLength (fs ! 0) = rawLength g"
  shows "pixelmatchChecked e g k (fwidth (fs ! 0)) (fheight (fs ! 0)) =
     (if rawLength g = rawLength k
      then Inr (pixelmatch e (fdata g) (fdata k) (fwidth (fs ! 0)) (fheight (fs ! 0)))
      else Inl ImageSizesDoNotMatch)"
  using assms by (simp add: pixelmatchChecked_def rawLength_def)

lemma verifyFrames_short:
  assumes "\<not> 2 < length fs"
  shows "verifyFrames e fs =
           Inr \<lparr>passed = (expectedIssues e fs = []), issues = expectedIssues e fs\<rparr>"
  using assms by (simp add: verifyFrames_def expectedIssues_def Let_def)

lemma verifyFrames_throws:
  assumes n: "2 < length fs" and m: "\<not> samplesMatch fs"
  shows "verifyFrames e fs = Inl ImageSizesDoNotMatch"
proof -
  have u: "[0..<2] = [0, 1]" by (simp add: upt_rec numeral_2_eq_2)
  have l: "[0..<length [a, b, c] - 1] = [0, 1]" for a b c :: frame
    using u by simp
  have z: "map (\<lambda>buf. (fwidth buf, fheight buf)) fs ! 0 = (fwidth (fs ! 0), fheight (fs ! 0))"
    using n by (cases fs) simp_all
  show ?thesis
  proof (cases "rawLength (fs ! 0) = rawLength (fs ! (length fs div 2))")
    case True
    then have "rawLength (fs ! (length fs div 2)) \<noteq> rawLength (fs ! (length fs - 1))"
      using m by (simp add: samplesMatch_def)
    then show ?thesis
      using n l z True
      by (simp add: verifyFrames_def Let_def sampleCheck_def floorHalf_div
            pixelmatchChecked_first pixelmatchChecked_second)
  next
    case False
    then show ?thesis
      using n l z
      by (simp add: verifyFrames_def Let_def sampleCheck_def floorHalf_div
            pixelmatchChecked_first)
  qed
qed

lemma verifyFrames_sampled:
  assumes n: "2 < length fs" and m: "samplesMatch fs"
  shows "verifyFrames e fs =
           Inr \<lparr>passed = (expectedIssues e fs = []), issues = expectedIssues e fs\<rparr>"
proof -
  have u: "[0..<2] = [0, 1]" by (simp add: upt_rec numeral_2_eq_2)
  have l: "[0..<length [a, b, c] - 1] = [0, 1]" for a b c :: frame
    using u by simp
  have z: "map (\<lambda>buf. (fwidth buf, fheight buf)) fs ! 0 = (fwidth (fs ! 0), fheight (fs ! 0))"
    using n by (cases fs) simp_all
  have a: "rawLength (fs ! 0) = rawLength (fs ! (length fs div 2))"
    and b: "rawLength (fs ! (length fs div 2)) = rawLength (fs ! (length fs - 1))"
    using m by (simp_all add: samplesMatch_def)
  show ?thesis
    using n l z a b
    by (simp add: verifyFrames_def Let_def sampleCheck_def floorHalf_div sampleRatio_def
          expectedIssues_def pixelmatchChecked_first pixelmatchChecked_second)
qed

lemma verifyFrames_char:
  "verifyFrames e fs =
     (if 2 < length fs \<and> \<not> samplesMatch fs then Inl ImageSizesDoNotMatch
      else Inr \<lparr>passed = (expectedIssues e fs = []), issues = expectedIssues e fs\<rparr>)"
  using verifyFrames_short [of fs e] verifyFrames_throws [of fs e] verifyFrames_sampled [of fs e]
  by (cases "2 < length fs"; cases "samplesMatch fs"; simp)

text \<open>Frames of one size never make the verifier throw.\<close>

lemma samplesMatch_uniform:
  assumes "\<forall>f \<in> set fs. fwidth f = w \<and> fheight f = h" and "0 < length fs"
  shows "samplesMatch fs"
proof -
  have "i < length fs \<Longrightarrow> rawLength (fs ! i) = w * h * 4" for i
    using assms(1) by (simp add: rawLength_def)
  moreover have "0 < length fs" "length fs div 2 < length fs" "length fs - 1 < length fs"
    using assms(2) by simp_all
  ultimately show ?thesis by (simp add: samplesMatch_def)
qed

lemma stabilizeDecoded_dims:
  "\<forall>f \<in> set (stabilizeDecoded bufs).
     fwidth f = maxContentWidth bufs + 40 \<and> fheight f = maxContentHeight bufs + 40"
  by (auto simp: stabilizeDecoded_def stabilizeOne_def composite_def Let_def)

lemma verifyFrames_stabilized:
  "verifyFrames e (stabilizeDecoded bufs) =
     Inr \<lparr>passed = (expectedIssues e (stabilizeDecoded bufs) = []),
          issues = expectedIssues e (stabilizeDecoded bufs)\<rparr>"
proof (cases "2 < length (stabilizeDecoded bufs)")
  case True
  then have "0 < length (stabilizeDecoded bufs)" by auto
  then have "samplesMatch (stabilizeDecoded bufs)"
    using stabilizeDecoded_dims by (rule samplesMatch_uniform [rotated])
  then show ?thesis by (simp add: verifyFrames_char)
next
  case False
  then show ?thesis by (simp add: verifyFrames_char)
qed

subsection \<open>The pipeline returns a result\<close>

lemma those_defined:
  "None \<notin> set xs \<Longrightarrow> \<exists>ys. those xs = Some ys \<and> length ys = length xs"
proof (induction xs)
  case Nil
  then show ?case by simp
next
  case (Cons x xs)
  then obtain ys where "those xs = Some ys" "length ys = length xs" by auto
  moreover obtain y where "x = Some y" using Cons.prems by (cases x) auto
  ultimately show ?case by simp
qed

lemma those_map_Some: "those (map Some xs) = Some xs"
  by (induction xs) simp_all

lemma replaceBadFrames_defined:
  assumes "\<forall>b \<in> set bs. index b < length xs \<and> replacement b < length xs"
    and "None \<notin> set xs"
  shows "length (replaceBadFrames xs bs) = length xs \<and> None \<notin> set (replaceBadFrames xs bs)"
  using assms unfolding replaceBadFrames_def
proof (induction bs arbitrary: xs)
  case Nil
  then show ?case by simp
next
  case (Cons b bs)
  let ?xs' = "jsSet xs (index b) (jsGet xs (replacement b))"
  have ib: "index b < length xs" and rb: "replacement b < length xs"
    using Cons.prems(1) by simp_all
  have eq: "?xs' = xs[index b := xs ! replacement b]"
    using ib rb by (simp add: jsSet_def jsGet_def)
  have len: "length ?xs' = length xs" by (simp add: eq)
  have "xs ! replacement b \<noteq> None" using rb Cons.prems(2) by (metis nth_mem)
  then have nn: "None \<notin> set ?xs'"
    using Cons.prems(2) set_update_subset_insert [of xs "index b" "xs ! replacement b"]
    unfolding eq by auto
  have "\<forall>b \<in> set bs. index b < length ?xs' \<and> replacement b < length ?xs'"
    using Cons.prems(1) len by simp
  then show ?case using Cons.IH [of ?xs'] nn len by simp
qed

lemma length_stabilizeDecoded: "length (stabilizeDecoded bufs) = length bufs"
  by (simp add: stabilizeDecoded_def Let_def)

lemma detectBadFrames_short:
  "length fs < 3 \<Longrightarrow> detectBadFrames e opts fs = \<lparr>badFrames = [], methodsUsed = []\<rparr>"
  by (simp add: detectBadFrames_def)

lemma badFrames_in_range:
  assumes "b \<in> set (badFrames (detectBadFrames e opts fs))"
  shows "index b < length fs \<and> replacement b < length fs"
proof (cases "length fs < 3")
  case True
  then show ?thesis using assms by (simp add: detectBadFrames_short)
next
  case False
  then have n3: "3 \<le> length fs" by simp
  show ?thesis using detected_replacement_spec [OF n3 assms] by (simp add: Let_def)
qed

lemma replaced_frames_defined:
  "\<exists>ys. those (replaceBadFrames (map Some fs) (badFrames (detectBadFrames e opts fs))) = Some ys
        \<and> length ys = length fs"
proof -
  let ?bs = "badFrames (detectBadFrames e opts fs)"
  have "\<forall>b \<in> set ?bs. index b < length (map Some fs) \<and> replacement b < length (map Some fs)"
    using badFrames_in_range by simp
  moreover have "None \<notin> set (map Some fs)" by auto
  ultimately have "length (replaceBadFrames (map Some fs) ?bs) = length (map Some fs)
      \<and> None \<notin> set (replaceBadFrames (map Some fs) ?bs)"
    by (rule replaceBadFrames_defined)
  then show ?thesis
    using those_defined [of "replaceBadFrames (map Some fs) ?bs"] by auto
qed

lemma autoFix_total:
  "\<exists>res. autoFix e opts fs = Inr res \<and> length (frames res) = length fs
         \<and> totalFrames (report res) = length fs"
proof (cases "badFrames (detectBadFrames e opts fs) = []")
  case True
  then show ?thesis
    by (simp add: autoFix_def Let_def stabilizeFrames_def those_map_Some
          length_stabilizeDecoded verifyFrames_stabilized)
next
  case False
  obtain ys where ys:
    "those (replaceBadFrames (map Some fs) (badFrames (detectBadFrames e opts fs))) = Some ys"
    "length ys = length fs"
    using replaced_frames_defined by blast
  show ?thesis
    using False ys
    by (simp add: autoFix_def Let_def stabilizeFrames_def length_stabilizeDecoded
          verifyFrames_stabilized)
qed

text \<open>
  Claim C10. For every input sequence the pipeline returns a result (it does not fail),
  the output sequence has exactly as many frames as the input, and the report's
  \<open>totalFrames\<close> is the input length.
\<close>

theorem autoFix_preserves_length:
  "\<exists>res. autoFix e opts frameBuffers = Inr res
         \<and> length (frames res) = length frameBuffers
         \<and> totalFrames (report res) = length frameBuffers"
  by (rule autoFix_total)

subsection \<open>Which pass produces which kind of anomaly\<close>

lemma checkChannel_set:
  "set (checkChannel thr stats f ch anoms) =
     set anoms \<union> (if colorLossCond thr stats f ch then {colorLossRecord stats f ch} else {})"
  by (simp add: checkChannel_def Let_def colorLossCond_def colorLossRecord_def)

lemma ex_channel: "(\<exists>ch. P ch) \<longleftrightarrow> P DarkGreen \<or> P Brown \<or> P DarkPixels"
  by (metis channel.exhaust)

lemma channels_set:
  "a \<in> set (fold (checkChannel thr stats f) [DarkGreen, Brown, DarkPixels] []) \<longleftrightarrow>
     (\<exists>ch. colorLossCond thr stats f ch \<and> a = colorLossRecord stats f ch)"
  unfolding ex_channel by (simp add: checkChannel_set)

lemma checkGreen_set:
  "a \<in> set (checkGreen thr stats f anoms) \<Longrightarrow> a \<in> set anoms \<or> atype a = green_washout"
  by (auto simp: checkGreen_def Let_def split: if_splits)

lemma checkGreen_mono: "set anoms \<subseteq> set (checkGreen thr stats f anoms)"
  by (auto simp: checkGreen_def Let_def)

lemma atype_colorLossRecord: "atype (colorLossRecord stats f ch) = color_loss"
  by (simp add: colorLossRecord_def)

lemma histogram_color_loss:
  "(a \<in> set (histogramAnomalies thr stats f) \<and> atype a = color_loss) \<longleftrightarrow>
     (\<exists>ch. colorLossCond thr stats f ch \<and> a = colorLossRecord stats f ch)"
proof
  assume l: "a \<in> set (histogramAnomalies thr stats f) \<and> atype a = color_loss"
  then have "a \<in> set (fold (checkChannel thr stats f) [DarkGreen, Brown, DarkPixels] [])"
    using checkGreen_set [of a thr stats f] unfolding histogramAnomalies_def by fastforce
  then show "\<exists>ch. colorLossCond thr stats f ch \<and> a = colorLossRecord stats f ch"
    by (simp only: channels_set)
next
  assume "\<exists>ch. colorLossCond thr stats f ch \<and> a = colorLossRecord stats f ch"
  then have m: "a \<in> set (fold (checkChannel thr stats f) [DarkGreen, Brown, DarkPixels] [])"
    and t: "atype a = color_loss"
    by (simp_all only: channels_set) (auto simp: atype_colorLossRecord)
  show "a \<in> set (histogramAnomalies thr stats f) \<and> atype a = color_loss"
    using m t checkGreen_mono unfolding histogramAnomalies_def by blast
qed

lemma histogram_types:
  "a \<in> set (histogramAnomalies thr stats f) \<Longrightarrow> atype a = color_loss \<or> atype a = green_washout"
proof -
  let ?base = "fold (checkChannel thr stats f) [DarkGreen, Brown, DarkPixels] []"
  assume "a \<in> set (histogramAnomalies thr stats f)"
  then have "a \<in> set ?base \<or> atype a = green_washout"
    unfolding histogramAnomalies_def by (rule checkGreen_set)
  moreover have "a \<in> set ?base \<Longrightarrow> atype a = color_loss"
    by (auto simp only: channels_set atype_colorLossRecord)
  ultimately show ?thesis by blast
qed

lemma opacity_types:
  "a \<in> set (opacityPart k stats fa f) \<Longrightarrow> atype a = transparency_hole \<or> atype a = extra_opacity"
  by (auto simp: opacityPart_def opacityAnomaly_def split: if_splits)

lemma halo_types: "a \<in> set (haloPart fa f) \<Longrightarrow> atype a = halo_effect"
  by (auto simp: haloPart_def Let_def split: if_splits)

lemma ssim_types: "a \<in> set (ssimPart thr scores i) \<Longrightarrow> atype a = structural_damage"
  by (auto simp: ssimPart_def split: if_splits)

lemma diff_types: "a \<in> set (diffPart thr dfs i old) \<Longrightarrow> atype a = pixel_outlier"
  by (auto simp: diffPart_def Let_def split: if_splits)

lemma frameAnomaliesAt_parts:
  assumes "i < length fs"
  shows "\<exists>s d. frameAnomaliesAt e opts fs i =
            histogramAnomalies (colorRatioThreshold opts) (calculateMedianStats (analyzeAll fs))
              (analyzeAll fs ! i)
            @ opacityPart (opacityIQRMultiplier opts) (calculateMedianStats (analyzeAll fs))
                (analyzeAll fs) (analyzeAll fs ! i)
            @ haloPart (analyzeAll fs) (analyzeAll fs ! i) @ s @ d
          \<and> (\<forall>a \<in> set s. atype a = structural_damage)
          \<and> (\<forall>a \<in> set d. atype a = pixel_outlier)
          \<and> (1 \<le> i \<and> i < length fs - 1 \<longrightarrow>
                s = ssimPart (ssimThreshold opts) (adjacentScores e fs) i)"
proof (cases "1 \<le> i \<and> i < length fs - 1")
  case True
  let ?h = "histogramAnomalies (colorRatioThreshold opts) (calculateMedianStats (analyzeAll fs))
              (analyzeAll fs ! i)
            @ opacityPart (opacityIQRMultiplier opts) (calculateMedianStats (analyzeAll fs))
                (analyzeAll fs) (analyzeAll fs ! i)
            @ haloPart (analyzeAll fs) (analyzeAll fs ! i)"
  let ?s = "ssimPart (ssimThreshold opts) (adjacentScores e fs) i"
  let ?d = "diffPart (pixelDiffThreshold opts) (consecutiveDiffs e fs) i (?h @ ?s)"
  have "frameAnomaliesAt e opts fs i = ?h @ ?s @ ?d"
    using True assms by (simp add: frameAnomaliesAt_def Let_def)
  moreover have "\<forall>a \<in> set ?s. atype a = structural_damage" using ssim_types by blast
  moreover have "\<forall>a \<in> set ?d. atype a = pixel_outlier" using diff_types by blast
  ultimately show ?thesis by (intro exI [of _ ?s] exI [of _ ?d]) simp
next
  case False
  then have "frameAnomaliesAt e opts fs i =
            histogramAnomalies (colorRatioThreshold opts) (calculateMedianStats (analyzeAll fs))
              (analyzeAll fs ! i)
            @ opacityPart (opacityIQRMultiplier opts) (calculateMedianStats (analyzeAll fs))
                (analyzeAll fs) (analyzeAll fs ! i)
            @ haloPart (analyzeAll fs) (analyzeAll fs ! i) @ [] @ []"
    using assms by (auto simp: frameAnomaliesAt_def Let_def)
  moreover have "(1 \<le> i \<and> i < length fs - 1 \<longrightarrow>
                [] = ssimPart (ssimThreshold opts) (adjacentScores e fs) i)"
    using False by blast
  ultimately show ?thesis by (intro exI [of _ "[]"]) simp
qed

lemma ssimPart_nonempty:
  "ssimPart thr scores i \<noteq> [] \<longleftrightarrow>
     scores ! (i - 1) < ssimOutlierThreshold scores \<and> scores ! i < ssimOutlierThreshold scores
     \<and> min (scores ! (i - 1)) (scores ! i) < thr"
  by (simp add: ssimPart_def)

lemma structural_damage_iff:
  assumes "1 \<le> i" "i < length fs - 1"
  shows "(\<exists>a \<in> set (frameAnomaliesAt e opts fs i). atype a = structural_damage) \<longleftrightarrow>
           ssimPart (ssimThreshold opts) (adjacentScores e fs) i \<noteq> []"
proof -
  have il: "i < length fs" using assms by simp
  let ?h = "histogramAnomalies (colorRatioThreshold opts) (calculateMedianStats (analyzeAll fs))
              (analyzeAll fs ! i)"
  let ?o = "opacityPart (opacityIQRMultiplier opts) (calculateMedianStats (analyzeAll fs))
                (analyzeAll fs) (analyzeAll fs ! i)"
  let ?l = "haloPart (analyzeAll fs) (analyzeAll fs ! i)"
  let ?s = "ssimPart (ssimThreshold opts) (adjacentScores e fs) i"
  obtain d where fa: "frameAnomaliesAt e opts fs i = ?h @ ?o @ ?l @ ?s @ d"
    and d: "\<forall>a \<in> set d. atype a = pixel_outlier"
    using frameAnomaliesAt_parts [OF il, of e opts] assms by auto
  have nh: "\<forall>a \<in> set ?h. atype a \<noteq> structural_damage" using histogram_types by fastforce
  have no: "\<forall>a \<in> set ?o. atype a \<noteq> structural_damage" using opacity_types by fastforce
  have nl: "\<forall>a \<in> set ?l. atype a \<noteq> structural_damage" using halo_types by fastforce
  have nd: "\<forall>a \<in> set d. atype a \<noteq> structural_damage" using d by simp
  have ys: "\<forall>a \<in> set ?s. atype a = structural_damage" using ssim_types by blast
  have "(\<exists>a \<in> set (frameAnomaliesAt e opts fs i). atype a = structural_damage) \<longleftrightarrow>
        (\<exists>a \<in> set ?s. atype a = structural_damage)"
    unfolding fa using nh no nl nd by auto
  also have "\<dots> \<longleftrightarrow> ?s \<noteq> []"
  proof
    assume "\<exists>a \<in> set ?s. atype a = structural_damage"
    then show "?s \<noteq> []" by auto
  next
    assume "?s \<noteq> []"
    then obtain a where "a \<in> set ?s" by (cases ?s) auto
    then show "\<exists>a \<in> set ?s. atype a = structural_damage" using ys by blast
  qed
  finally show ?thesis .
qed

lemma flagged_iff:
  assumes n3: "3 \<le> length fs"
  shows "(\<exists>b \<in> set (badFrames (detectBadFrames e opts fs)).
            index b = i \<and> (\<exists>a \<in> set (reasons b). P a))
         \<longleftrightarrow> (\<exists>a \<in> set (frameAnomaliesAt e opts fs i). P a)"
proof
  assume "\<exists>b \<in> set (badFrames (detectBadFrames e opts fs)).
            index b = i \<and> (\<exists>a \<in> set (reasons b). P a)"
  then obtain b where b: "b \<in> set (badFrames (detectBadFrames e opts fs))" "index b = i"
    "\<exists>a \<in> set (reasons b). P a" by blast
  have "reasons b = frameAnomaliesAt e opts fs i"
    using badFrames_member [OF n3 b(1)] b(2) by simp
  then show "\<exists>a \<in> set (frameAnomaliesAt e opts fs i). P a" using b(3) by simp
next
  assume r: "\<exists>a \<in> set (frameAnomaliesAt e opts fs i). P a"
  then have "frameAnomaliesAt e opts fs i \<noteq> []" by auto
  then obtain b where b: "b \<in> set (badFrames (detectBadFrames e opts fs))" "index b = i"
    "reasons b = frameAnomaliesAt e opts fs i"
    using badFrames_present [OF n3, of e opts i] by blast
  show "\<exists>b \<in> set (badFrames (detectBadFrames e opts fs)).
            index b = i \<and> (\<exists>a \<in> set (reasons b). P a)"
    using b r by (intro bexI [of _ b]) simp_all
qed

lemma length_adjacentScores: "length (adjacentScores e fs) = length fs - 1"
  by (simp add: adjacentScores_def Let_def)

text \<open>
  Claim C4. In a sequence of at least three frames, an interior frame \<open>i\<close> is flagged
  \<open>structural_damage\<close> if and only if both adjacent SSIM scores lie below the outlier
  floor \<open>Q1 - 3.0 * IQR\<close> of the \<open>N - 1\<close> adjacent-pair scores and the smaller of the two
  lies below \<open>ssimThreshold\<close>; a frame with exactly one adjacent score below the floor
  is not flagged.
\<close>

theorem structural_damage_double_confirmation:
  assumes "3 \<le> length fs" and "0 < i" and "i < length fs - 1"
  shows "let scores = adjacentScores e fs;
             lowFloor = quartile1 scores - 3.0 * (quartile3 scores - quartile1 scores);
             flagged = (\<exists>b \<in> set (badFrames (detectBadFrames e opts fs)).
                          index b = i \<and> (\<exists>a \<in> set (reasons b). atype a = structural_damage))
         in length scores = length fs - 1
          \<and> (flagged \<longleftrightarrow>
               scores ! (i - 1) < lowFloor \<and> scores ! i < lowFloor
               \<and> min (scores ! (i - 1)) (scores ! i) < ssimThreshold opts)
          \<and> ((scores ! (i - 1) < lowFloor) \<noteq> (scores ! i < lowFloor) \<longrightarrow> \<not> flagged)"
proof -
  have i1: "1 \<le> i" using assms(2) by simp
  have "(\<exists>b \<in> set (badFrames (detectBadFrames e opts fs)).
            index b = i \<and> (\<exists>a \<in> set (reasons b). atype a = structural_damage))
        \<longleftrightarrow> ssimPart (ssimThreshold opts) (adjacentScores e fs) i \<noteq> []"
    using flagged_iff [OF assms(1)] structural_damage_iff [OF i1 assms(3)] by simp
  then have "(\<exists>b \<in> set (badFrames (detectBadFrames e opts fs)).
            index b = i \<and> (\<exists>a \<in> set (reasons b). atype a = structural_damage))
        \<longleftrightarrow> (adjacentScores e fs ! (i - 1) < ssimOutlierThreshold (adjacentScores e fs)
             \<and> adjacentScores e fs ! i < ssimOutlierThreshold (adjacentScores e fs)
             \<and> min (adjacentScores e fs ! (i - 1)) (adjacentScores e fs ! i) < ssimThreshold opts)"
    by (simp only: ssimPart_nonempty)
  then show ?thesis
    unfolding Let_def
    by (simp add: length_adjacentScores ssimOutlierThreshold_def Let_def)
qed

subsection \<open>Colour loss\<close>

lemma color_loss_iff:
  assumes il: "i < length fs"
  shows "(\<exists>a \<in> set (frameAnomaliesAt e opts fs i).
            atype a = color_loss \<and> channel a = Some ch \<and> severity a = sev)
         \<longleftrightarrow> colorLossCond (colorRatioThreshold opts) (calculateMedianStats (analyzeAll fs))
                 (analyzeAll fs ! i) ch
             \<and> severity (colorLossRecord (calculateMedianStats (analyzeAll fs))
                           (analyzeAll fs ! i) ch) = sev"
proof -
  let ?stats = "calculateMedianStats (analyzeAll fs)"
  let ?f = "analyzeAll fs ! i"
  let ?h = "histogramAnomalies (colorRatioThreshold opts) ?stats ?f"
  let ?o = "opacityPart (opacityIQRMultiplier opts) ?stats (analyzeAll fs) ?f"
  let ?l = "haloPart (analyzeAll fs) ?f"
  obtain s d where fa: "frameAnomaliesAt e opts fs i = ?h @ ?o @ ?l @ s @ d"
    and s: "\<forall>a \<in> set s. atype a = structural_damage"
    and d: "\<forall>a \<in> set d. atype a = pixel_outlier"
    using frameAnomaliesAt_parts [OF il, of e opts] by auto
  have no: "\<forall>a \<in> set ?o. atype a \<noteq> color_loss" using opacity_types by fastforce
  have nl: "\<forall>a \<in> set ?l. atype a \<noteq> color_loss" using halo_types by fastforce
  have ns: "\<forall>a \<in> set s. atype a \<noteq> color_loss" using s by simp
  have nd: "\<forall>a \<in> set d. atype a \<noteq> color_loss" using d by simp
  have "(\<exists>a \<in> set (frameAnomaliesAt e opts fs i).
            atype a = color_loss \<and> channel a = Some ch \<and> severity a = sev)
        \<longleftrightarrow> (\<exists>a. (a \<in> set ?h \<and> atype a = color_loss) \<and> channel a = Some ch \<and> severity a = sev)"
    unfolding fa using no nl ns nd by auto
  also have "\<dots> \<longleftrightarrow> (\<exists>a. (\<exists>c. colorLossCond (colorRatioThreshold opts) ?stats ?f c
                              \<and> a = colorLossRecord ?stats ?f c)
                         \<and> channel a = Some ch \<and> severity a = sev)"
    by (simp only: histogram_color_loss)
  also have "\<dots> \<longleftrightarrow> colorLossCond (colorRatioThreshold opts) ?stats ?f ch
                     \<and> severity (colorLossRecord ?stats ?f ch) = sev"
  proof -
    have ch: "channel (colorLossRecord ?stats ?f c) = Some c" for c
      by (simp add: colorLossRecord_def)
    show ?thesis using ch by auto
  qed
  finally show ?thesis .
qed

subsection \<open>The median of a list with one deviating entry\<close>

lemma getMedian_one_low:
  fixes xs :: "nat list"
  assumes n3: "3 \<le> length xs" and j: "j < length xs"
    and others: "\<forall>i < length xs. i \<noteq> j \<longrightarrow> xs ! i = c"
    and low: "xs ! j \<le> c"
  shows "getMedian xs = c"
proof -
  let ?n = "length xs"
  let ?ys = "xs ! j # replicate (?n - 1) c"
  have t: "take j xs = replicate j c"
    using others j by (intro nth_equalityI) auto
  have d: "drop (Suc j) xs = replicate (?n - Suc j) c"
    using others j by (intro nth_equalityI) auto
  have xs: "xs = replicate j c @ xs ! j # replicate (?n - Suc j) c"
    using id_take_nth_drop [OF j] t d by simp
  have split: "?n - 1 = j + (?n - Suc j)" using j by simp
  have "mset xs = mset (replicate j c @ xs ! j # replicate (?n - Suc j) c)"
    using xs by simp
  also have "\<dots> = mset ?ys"
    by (simp only: split replicate_add) simp
  finally have ms: "mset ?ys = mset xs" by simp
  have so: "sorted ?ys" using low by (simp add: sorted_replicate)
  have "sort xs = ?ys" using ms so by (rule properties_for_sort)
  moreover have "1 \<le> ?n div 2" "?n div 2 - 1 < ?n - 1" using n3 by auto
  ultimately show ?thesis by (simp add: getMedian_nth nth_Cons')
qed

lemma channelMedian_getMedian:
  "channelMedian (calculateMedianStats fa) ch =
     getMedian (map (\<lambda>f. channelCount (colors f) ch) fa)"
  by (cases ch) (simp_all add: channelMedian_def calculateMedianStats_def channelCount_def)

lemma flagged_color_loss:
  assumes n3: "3 \<le> length fs" and il: "i < length fs"
  shows "(\<exists>b \<in> set (badFrames (detectBadFrames e opts fs)).
            index b = i \<and> (\<exists>a \<in> set (reasons b).
              atype a = color_loss \<and> channel a = Some ch \<and> severity a = sev))
         \<longleftrightarrow> colorLossCond (colorRatioThreshold opts) (calculateMedianStats (analyzeAll fs))
                 (analyzeAll fs ! i) ch
             \<and> severity (colorLossRecord (calculateMedianStats (analyzeAll fs))
                           (analyzeAll fs ! i) ch) = sev"
  using flagged_iff [OF n3, of e opts i
          "\<lambda>a. atype a = color_loss \<and> channel a = Some ch \<and> severity a = sev"]
        color_loss_iff [OF il, of e opts ch sev]
  by simp

text \<open>
  Claim C6. In a sequence of at least three frames, for a colour bucket whose
  cross-frame median count exceeds the presence floor 50, a frame is flagged
  \<open>color_loss\<close> for that bucket when its count divided by the median is below
  \<open>colorRatioThreshold\<close>, with severity \<open>severe\<close> exactly when the ratio is below 0.2
  and \<open>moderate\<close> otherwise. In particular, with the default threshold 0.35, when all
  frames have the same count in the bucket except one frame whose count is 10% of that
  common value, that frame appears in \<open>badFrames\<close> with a \<open>color_loss\<close> reason of
  severity \<open>severe\<close>. The bucket is any of the three, the primary one (dark green)
  included.
\<close>

theorem color_loss_detection:
  assumes n3: "3 \<le> length fs" and il: "i < length fs"
    and med: "50 < channelMedian (calculateMedianStats (analyzeAll fs)) ch"
  shows "let medianCount = channelMedian (calculateMedianStats (analyzeAll fs)) ch;
             frameCount = (\<lambda>k. channelCount (colors (analyzeAll fs ! k)) ch);
             ratio = real (frameCount i) / real medianCount;
             flagged = (\<lambda>k sev. \<exists>b \<in> set (badFrames (detectBadFrames e opts fs)).
                          index b = k \<and> (\<exists>a \<in> set (reasons b).
                            atype a = color_loss \<and> channel a = Some ch \<and> severity a = sev))
         in (ratio < colorRatioThreshold opts \<longrightarrow>
               flagged i (if ratio < 0.2 then severe else moderate))
          \<and> (flagged i severe \<longleftrightarrow> ratio < colorRatioThreshold opts \<and> ratio < 0.2)
          \<and> (flagged i moderate \<longleftrightarrow> ratio < colorRatioThreshold opts \<and> \<not> ratio < 0.2)
          \<and> (\<forall>j c. j < length fs \<and> (\<forall>k < length fs. k \<noteq> j \<longrightarrow> frameCount k = c)
                   \<and> 10 * frameCount j = c \<and> colorRatioThreshold opts = 0.35
                 \<longrightarrow> flagged j severe)"
proof -
  let ?stats = "calculateMedianStats (analyzeAll fs)"
  let ?cnt = "\<lambda>k. channelCount (colors (analyzeAll fs ! k)) ch"
  let ?med = "channelMedian ?stats ch"
  let ?flag = "\<lambda>k sev. \<exists>b \<in> set (badFrames (detectBadFrames e opts fs)).
                 index b = k \<and> (\<exists>a \<in> set (reasons b).
                   atype a = color_loss \<and> channel a = Some ch \<and> severity a = sev)"
  have fl: "?flag k sev \<longleftrightarrow>
              real (?cnt k) / real ?med < colorRatioThreshold opts
              \<and> (if real (?cnt k) / real ?med < 0.2 then severe else moderate) = sev"
    if "k < length fs" for k sev
    using flagged_color_loss [OF n3 that, of e opts ch sev] med
    by (simp add: colorLossCond_def colorLossRecord_def)
  have A: "real (?cnt i) / real ?med < colorRatioThreshold opts \<longrightarrow>
             ?flag i (if real (?cnt i) / real ?med < 0.2 then severe else moderate)"
    using fl [OF il] by simp
  have B: "?flag i severe \<longleftrightarrow>
             real (?cnt i) / real ?med < colorRatioThreshold opts \<and> real (?cnt i) / real ?med < 0.2"
    using fl [OF il, of severe] by simp
  have C: "?flag i moderate \<longleftrightarrow>
             real (?cnt i) / real ?med < colorRatioThreshold opts
             \<and> \<not> real (?cnt i) / real ?med < 0.2"
    using fl [OF il, of moderate] by simp
  have D: "?flag j severe"
    if h: "j < length fs" "\<forall>k < length fs. k \<noteq> j \<longrightarrow> ?cnt k = c" "10 * ?cnt j = c"
      "colorRatioThreshold opts = 0.35" for j c
  proof -
    let ?xs = "map (\<lambda>f. channelCount (colors f) ch) (analyzeAll fs)"
    have len: "length ?xs = length fs" by (simp add: length_analyzeAll)
    have nth: "?xs ! k = ?cnt k" if "k < length fs" for k
      using that by (simp add: length_analyzeAll)
    have "getMedian ?xs = c"
    proof (rule getMedian_one_low [of ?xs j c])
      show "3 \<le> length ?xs" using n3 len by simp
      show "j < length ?xs" using h(1) len by simp
      show "\<forall>i < length ?xs. i \<noteq> j \<longrightarrow> ?xs ! i = c" using h(2) nth len by simp
      show "?xs ! j \<le> c" using h(3) nth [OF h(1)] by simp
    qed
    then have mc: "?med = c" by (simp add: channelMedian_getMedian)
    then have c50: "50 < c" using med by simp
    have "real (?cnt j) / real ?med = 1 / 10"
      using h(3) c50 mc by (simp add: field_simps)
    then show ?thesis using fl [OF h(1), of severe] h(4) by simp
  qed
  show ?thesis unfolding Let_def using A B C D by blast
qed

subsection \<open>Evaluation on concrete sequences\<close>

lemma colors_analyzeFrame:
  "colors (analyzeFrame i f) = pa_colors (analyzePixels (fdata f) (fwidth f) (fheight f))"
  by (simp add: analyzeFrame_def Let_def)

lemma analyzeAll_three:
  "analyzeAll [a, b, c] = [analyzeFrame 0 a, analyzeFrame 1 b, analyzeFrame 2 c]"
proof -
  have "[0..<3] = [0, 1, 2]" by (simp add: upt_rec)
  then have "[0..<length [a, b, c]] = [0, 1, 2]" by simp
  then show ?thesis unfolding analyzeAll_def by (simp add: numeral_2_eq_2)
qed

lemma replaceBadFrames_Cons:
  "replaceBadFrames xs (b # bs) =
     replaceBadFrames (jsSet xs (index b) (jsGet xs (replacement b))) bs"
  by (simp add: replaceBadFrames_def)

lemma replaceBadFrames_Nil: "replaceBadFrames xs [] = xs"
  by (simp add: replaceBadFrames_def)

lemma allBad_colors:
  "colors (analyzeFrame i (twoTone 51 brownPx 51 darkPx)) =
     \<lparr>darkGreen = 0, brown = 51, darkPixels = 51, other = 0\<rparr>"
  "colors (analyzeFrame i (twoTone 51 greenPx 51 darkPx)) =
     \<lparr>darkGreen = 51, brown = 0, darkPixels = 51, other = 0\<rparr>"
  "colors (analyzeFrame i (twoTone 51 greenPx 51 brownPx)) =
     \<lparr>darkGreen = 51, brown = 51, darkPixels = 0, other = 0\<rparr>"
  unfolding colors_analyzeFrame by code_simp+

lemma allBad_flagged:
  "frameAnomaliesAt e defaultOptions allBadFrames 0 \<noteq> []"
  "frameAnomaliesAt e defaultOptions allBadFrames 1 \<noteq> []"
  "frameAnomaliesAt e defaultOptions allBadFrames 2 \<noteq> []"
proof -
  let ?stats = "calculateMedianStats (analyzeAll allBadFrames)"
  have med: "channelMedian ?stats DarkGreen = 51" "channelMedian ?stats Brown = 51"
    "channelMedian ?stats DarkPixels = 51"
    by (simp_all add: channelMedian_getMedian allBadFrames_def analyzeAll_three
          allBad_colors channelCount_def getMedian_nth)
  have c0: "colorLossCond (colorRatioThreshold defaultOptions) ?stats
              (analyzeAll allBadFrames ! 0) DarkGreen"
    unfolding colorLossCond_def med
    by (simp add: allBadFrames_def analyzeAll_three
          allBad_colors channelCount_def defaultOptions_def)
  have c1: "colorLossCond (colorRatioThreshold defaultOptions) ?stats
              (analyzeAll allBadFrames ! 1) Brown"
    unfolding colorLossCond_def med
    by (simp add: allBadFrames_def analyzeAll_three
          allBad_colors channelCount_def defaultOptions_def)
  have c2: "colorLossCond (colorRatioThreshold defaultOptions) ?stats
              (analyzeAll allBadFrames ! 2) DarkPixels"
    unfolding colorLossCond_def med
    by (simp add: allBadFrames_def analyzeAll_three
          allBad_colors channelCount_def defaultOptions_def)
  have len: "0 < length allBadFrames" "1 < length allBadFrames" "2 < length allBadFrames"
    by (simp_all add: allBadFrames_def)
  show "frameAnomaliesAt e defaultOptions allBadFrames 0 \<noteq> []"
    using color_loss_iff [OF len(1), of e defaultOptions DarkGreen] c0 by fastforce
  show "frameAnomaliesAt e defaultOptions allBadFrames 1 \<noteq> []"
    using color_loss_iff [OF len(2), of e defaultOptions Brown] c1 by fastforce
  show "frameAnomaliesAt e defaultOptions allBadFrames 2 \<noteq> []"
    using color_loss_iff [OF len(3), of e defaultOptions DarkPixels] c2 by fastforce
qed

lemma allBad_set: "{i. frameAnomaliesAt e defaultOptions allBadFrames i \<noteq> []} = {0, 1, 2}"
proof -
  have "i < 3" if "frameAnomaliesAt e defaultOptions allBadFrames i \<noteq> []" for i
    using frameAnomaliesAt_range [OF that] by (simp add: allBadFrames_def)
  moreover have "i < 3 \<Longrightarrow> i = 0 \<or> i = 1 \<or> i = 2" for i :: nat by arith
  ultimately show ?thesis using allBad_flagged [of e] by auto
qed

lemma allBad_badFrames:
  "badFrames (detectBadFrames e defaultOptions allBadFrames) =
     map (mkBadFrame 3 {0, 1, 2} (frameAnomaliesAt e defaultOptions allBadFrames)) [0, 1, 2]"
proof -
  have l3: "length allBadFrames = 3" by (simp add: allBadFrames_def)
  have n3: "3 \<le> length allBadFrames" by (simp add: l3)
  have u: "[0..<3] = [0, 1, 2]" by (simp add: upt_rec)
  show ?thesis
    unfolding detectBadFrames_char [OF n3] allBad_set l3 u
    using allBad_flagged [of e] by simp
qed

lemma allBad_resolve:
  "resolveReplacement 3 {0, 1, 2} 0 = 1" "resolveReplacement 3 {0, 1, 2} 1 = 0"
  "resolveReplacement 3 {0, 1, 2} 2 = 1"
proof -
  have u: "[2..<3] = [2]" by (simp add: upt_rec)
  show "resolveReplacement 3 {0, 1, 2} 0 = 1" "resolveReplacement 3 {0, 1, 2} 1 = 0"
    "resolveReplacement 3 {0, 1, 2} 2 = 1"
    by (simp_all add: resolveReplacement_def u)
qed

lemma allBad_records:
  "badFrames (detectBadFrames e defaultOptions allBadFrames) =
     [\<lparr>index = 0, reasons = frameAnomaliesAt e defaultOptions allBadFrames 0, replacement = 1,
       frameSeverity = reasonsSeverity (frameAnomaliesAt e defaultOptions allBadFrames 0)\<rparr>,
      \<lparr>index = 1, reasons = frameAnomaliesAt e defaultOptions allBadFrames 1, replacement = 0,
       frameSeverity = reasonsSeverity (frameAnomaliesAt e defaultOptions allBadFrames 1)\<rparr>,
      \<lparr>index = 2, reasons = frameAnomaliesAt e defaultOptions allBadFrames 2, replacement = 1,
       frameSeverity = reasonsSeverity (frameAnomaliesAt e defaultOptions allBadFrames 2)\<rparr>]"
  by (simp only: allBad_badFrames list.map mkBadFrame_def allBad_resolve)

theorem all_bad_counterexample:
  "map index (badFrames (detectBadFrames fixedExt defaultOptions allBadFrames)) = [0, 1, 2]
   \<and> map replacement (badFrames (detectBadFrames fixedExt defaultOptions allBadFrames)) = [1, 0, 1]
   \<and> replaceBadFrames (map Some allBadFrames)
        (badFrames (detectBadFrames fixedExt defaultOptions allBadFrames))
      = [Some (allBadFrames ! 1), Some (allBadFrames ! 1), Some (allBadFrames ! 1)]
   \<and> allBadFrames ! 0 \<noteq> allBadFrames ! 1"
proof -
  have ne: "allBadFrames ! 0 \<noteq> allBadFrames ! 1"
  proof
    assume "allBadFrames ! 0 = allBadFrames ! 1"
    then have "hd (fdata (allBadFrames ! 0)) = hd (fdata (allBadFrames ! 1))" by simp
    then show False by code_simp
  qed
  have r: "replaceBadFrames (map Some allBadFrames)
        (badFrames (detectBadFrames fixedExt defaultOptions allBadFrames))
      = [Some (allBadFrames ! 1), Some (allBadFrames ! 1), Some (allBadFrames ! 1)]"
    unfolding allBad_records
    by (simp add: replaceBadFrames_Cons replaceBadFrames_Nil jsSet_def jsGet_def allBadFrames_def)
  show ?thesis
    using ne r by (simp add: allBad_records)
qed

subsection \<open>Replacement of detected frames\<close>

text \<open>
  Claim C1 (amended). In a sequence of at least three frames, every record of
  \<open>badFrames\<close> has an index \<open>i\<close> inside the sequence and a replacement \<open>r\<close> that is
  the predecessor \<open>i - 1\<close> if \<open>i > 0\<close> and \<open>i - 1\<close> is not bad; else the successor
  \<open>i + 1\<close> if \<open>i < N - 1\<close> and \<open>i + 1\<close> is not bad; \<open>r\<close> never equals \<open>i\<close> and lies
  inside the sequence; when some frame is not bad, \<open>r\<close> is not bad and is a nearest
  good frame, the earlier one on a tie (the outward search, without wraparound);
  when every frame is bad, \<open>r\<close> is the adjacent index \<open>i - 1\<close> (or \<open>i + 1\<close> for
  \<open>i = 0\<close>), and the pipeline still returns a result.
\<close>

theorem replacement_resolution:
  assumes "3 \<le> length fs"
    and "b \<in> set (badFrames (detectBadFrames e opts fs))"
  shows "let n = length fs;
             bad = index ` set (badFrames (detectBadFrames e opts fs));
             i = index b;
             r = replacement b
         in i \<in> bad \<and> i < n
          \<and> (0 < i \<and> i - 1 \<notin> bad \<longrightarrow> r = i - 1)
          \<and> (\<not> (0 < i \<and> i - 1 \<notin> bad) \<and> i < n - 1 \<and> i + 1 \<notin> bad \<longrightarrow> r = i + 1)
          \<and> r \<noteq> i \<and> r < n
          \<and> ((\<exists>g < n. g \<notin> bad) \<longrightarrow> nearestGood n bad i r)
          \<and> ((\<forall>g < n. g \<in> bad) \<longrightarrow> r = (if 0 < i then i - 1 else i + 1))
          \<and> (\<exists>res. autoFix e opts fs = Inr res)"
proof -
  have "\<exists>res. autoFix e opts fs = Inr res" using autoFix_total [of e opts fs] by blast
  then show ?thesis
    using detected_replacement_spec [OF assms] by (simp add: Let_def)
qed

lemma fourFrames_eval:
  "map index (badFrames (detectBadFrames fixedExt defaultOptions fourFrames)) = [3]"
  "map replacement (badFrames (detectBadFrames fixedExt defaultOptions fourFrames)) = [2]"
  by code_simp+

theorem replacement_resolution_witness:
  "3 \<le> length fourFrames
   \<and> hd (badFrames (detectBadFrames fixedExt defaultOptions fourFrames))
       \<in> set (badFrames (detectBadFrames fixedExt defaultOptions fourFrames))
   \<and> index (hd (badFrames (detectBadFrames fixedExt defaultOptions fourFrames))) = 3
   \<and> replacement (hd (badFrames (detectBadFrames fixedExt defaultOptions fourFrames))) = 2
   \<and> nearestGood 4 {3} 3 2"
proof -
  let ?bs = "badFrames (detectBadFrames fixedExt defaultOptions fourFrames)"
  have n: "3 \<le> length fourFrames" "length fourFrames = 4" by (simp_all add: fourFrames_def)
  obtain b where bs: "?bs = [b]" "index b = 3" "replacement b = 2"
    using fourFrames_eval by auto
  have mem: "hd ?bs \<in> set ?bs" using bs by simp
  have bad: "index ` set ?bs = {3}" using bs by simp
  have g: "\<exists>g < 4. g \<notin> {3::nat}" by (intro exI [of _ 0]) simp
  show ?thesis
    using replacement_resolution [OF n(1) mem] mem n bs g
    by (simp add: Let_def bad)
qed

subsection \<open>A damaged frame among nine\<close>

lemma nineFrames_scores:
  "adjacentScores markerExt nineFrames =
     [9 / 10, 9 / 10, 9 / 10, 1 / 10, 1 / 10, 9 / 10, 9 / 10, 9 / 10]"
  by code_simp

lemma nineFrames_quartiles:
  "quartile1 [9 / 10, 9 / 10, 9 / 10, 1 / 10, 1 / 10, 9 / 10, 9 / 10, 9 / 10 :: real] = 9 / 10"
  "quartile3 [9 / 10, 9 / 10, 9 / 10, 1 / 10, 1 / 10, 9 / 10, 9 / 10, 9 / 10 :: real] = 9 / 10"
  by (simp_all add: quartile1_nth quartile3_nth)

theorem structural_damage_witness:
  "3 \<le> length nineFrames \<and> (0::nat) < 4 \<and> 4 < length nineFrames - 1
   \<and> (\<exists>b \<in> set (badFrames (detectBadFrames markerExt defaultOptions nineFrames)).
         index b = 4 \<and> (\<exists>a \<in> set (reasons b). atype a = structural_damage))
   \<and> \<not> (\<exists>b \<in> set (badFrames (detectBadFrames markerExt defaultOptions nineFrames)).
         index b = 3 \<and> (\<exists>a \<in> set (reasons b). atype a = structural_damage))"
proof -
  have n: "3 \<le> length nineFrames" "4 < length nineFrames - 1" "3 < length nineFrames - 1"
    by (simp_all add: nineFrames_def)
  have p4: "(0::nat) < 4" and p3: "(0::nat) < 3" by simp_all
  show ?thesis
    using structural_damage_double_confirmation [OF n(1) p4 n(2), of markerExt defaultOptions]
      structural_damage_double_confirmation [OF n(1) p3 n(3), of markerExt defaultOptions]
      n
    by (simp add: Let_def nineFrames_scores nineFrames_quartiles defaultOptions_def)
qed

subsection \<open>A washed-out frame, and short sequences\<close>

lemma washed_colors:
  "colors (analyzeFrame i (twoTone 60 greenPx 0 whitePx)) =
     \<lparr>darkGreen = 60, brown = 0, darkPixels = 0, other = 0\<rparr>"
  "colors (analyzeFrame i (twoTone 6 greenPx 54 whitePx)) =
     \<lparr>darkGreen = 6, brown = 0, darkPixels = 0, other = 54\<rparr>"
  unfolding colors_analyzeFrame by code_simp+

theorem color_loss_detection_witness:
  "3 \<le> length washedFrames \<and> 1 < length washedFrames
   \<and> 50 < channelMedian (calculateMedianStats (analyzeAll washedFrames)) DarkGreen
   \<and> channelCount (colors (analyzeAll washedFrames ! 1)) DarkGreen = 6
   \<and> channelCount (colors (analyzeAll washedFrames ! 0)) DarkGreen = 60
   \<and> (\<exists>b \<in> set (badFrames (detectBadFrames fixedExt defaultOptions washedFrames)).
         index b = 1 \<and> (\<exists>a \<in> set (reasons b).
           atype a = color_loss \<and> channel a = Some DarkGreen \<and> severity a = severe))"
proof -
  have n: "3 \<le> length washedFrames" "1 < length washedFrames"
    by (simp_all add: washedFrames_def)
  have med: "channelMedian (calculateMedianStats (analyzeAll washedFrames)) DarkGreen = 60"
    by (simp add: channelMedian_getMedian washedFrames_def analyzeAll_three
          washed_colors channelCount_def getMedian_nth)
  have m50: "50 < channelMedian (calculateMedianStats (analyzeAll washedFrames)) DarkGreen"
    by (simp add: med)
  have c1: "channelCount (colors (analyzeAll washedFrames ! 1)) DarkGreen = 6"
    and c0: "channelCount (colors (analyzeAll washedFrames ! 0)) DarkGreen = 60"
    by (simp_all add: washedFrames_def analyzeAll_three washed_colors channelCount_def)
  show ?thesis
    using color_loss_detection [OF n(1) n(2) m50, of fixedExt defaultOptions] n m50 c0 c1
    by (simp add: Let_def med defaultOptions_def)
qed

text \<open>
  Claim C7. A sequence of fewer than three frames skips detection: the set of bad
  frames and the list of methods are empty, nothing is replaced, and the pipeline
  still stabilizes the input frames, verifies the stabilized frames and returns
  them with the report, without failing.
\<close>

theorem short_sequence_skips_detection:
  assumes "length frameBuffers < 3"
  shows "detectBadFrames e opts frameBuffers = \<lparr>badFrames = [], methodsUsed = []\<rparr>
       \<and> (\<exists>finalCheck.
             verifyFrames e (stabilizeDecoded frameBuffers) = Inr finalCheck
             \<and> autoFix e opts frameBuffers =
                 Inr \<lparr>frames = stabilizeDecoded frameBuffers,
                      report = \<lparr>totalFrames = length frameBuffers,
                                reportBadFrames = [],
                                replacements = [],
                                stabilized = True,
                                detectionMethods = [],
                                verified = passed finalCheck,
                                verificationDetails = finalCheck\<rparr>\<rparr>)"
  using assms
  by (simp add: detectBadFrames_short autoFix_def Let_def stabilizeFrames_def those_map_Some
        verifyFrames_stabilized)

theorem short_sequence_witness:
  "length [onePixel 0 255, onePixel 0 0] < 3
   \<and> badFrames (detectBadFrames fixedExt defaultOptions [onePixel 0 255, onePixel 0 0]) = []
   \<and> (\<exists>finalCheck.
         verifyFrames fixedExt (stabilizeDecoded [onePixel 0 255, onePixel 0 0]) = Inr finalCheck
         \<and> autoFix fixedExt defaultOptions [onePixel 0 255, onePixel 0 0] =
             Inr \<lparr>frames = stabilizeDecoded [onePixel 0 255, onePixel 0 0],
                  report = \<lparr>totalFrames = 2,
                            reportBadFrames = [],
                            replacements = [],
                            stabilized = True,
                            detectionMethods = [],
                            verified = passed finalCheck,
                            verificationDetails = finalCheck\<rparr>\<rparr>)"
  using short_sequence_skips_detection
          [of "[onePixel 0 255, onePixel 0 0]" fixedExt defaultOptions]
  by (simp add: numeral_2_eq_2)

subsection \<open>Opacity outliers\<close>

lemma quartiles_ordered:
  fixes xs :: "('a::linorder) list"
  assumes "xs \<noteq> []"
  shows "quartile1 xs \<le> getMedian xs \<and> getMedian xs \<le> quartile3 xs"
proof -
  have n: "0 < length xs" using assms by simp
  have a: "length xs div 4 \<le> length xs div 2" by arith
  have b: "length xs div 2 \<le> 3 * length xs div 4" by arith
  have c0: "3 * length xs div 4 < length xs" using n by arith
  have d0: "length xs div 2 < length xs" using n by arith
  have c: "3 * length xs div 4 < length (sort xs)" using c0 by simp
  have d: "length xs div 2 < length (sort xs)" using d0 by simp
  have "sort xs ! (length xs div 4) \<le> sort xs ! (length xs div 2)"
    using a d by (intro sorted_nth_mono) simp_all
  moreover have "sort xs ! (length xs div 2) \<le> sort xs ! (3 * length xs div 4)"
    using b c by (intro sorted_nth_mono) simp_all
  ultimately show ?thesis by (simp add: quartile1_nth quartile3_nth getMedian_nth)
qed

lemma opacity_bounds_order:
  assumes "analysis \<noteq> []" and "0 \<le> k"
  shows "opacityLowerBound k analysis \<le> med_opaqueRatio (calculateMedianStats analysis)
       \<and> med_opaqueRatio (calculateMedianStats analysis) \<le> opacityUpperBound k analysis
       \<and> 0 \<le> opacityIQR analysis"
proof -
  let ?xs = "map (\<lambda>f. opaqueRatio (alpha f)) analysis"
  have ne: "?xs \<noteq> []" using assms(1) by simp
  have q: "quartile1 ?xs \<le> getMedian ?xs" "getMedian ?xs \<le> quartile3 ?xs"
    using quartiles_ordered [OF ne] by simp_all
  have i: "0 \<le> quartile3 ?xs - quartile1 ?xs" using q by simp
  have ki: "0 \<le> k * (quartile3 ?xs - quartile1 ?xs)" using assms(2) i by simp
  show ?thesis
    using q i ki
    by (simp add: opacityLowerBound_def opacityUpperBound_def opacityIQR_def Let_def
          calculateMedianStats_def)
qed

lemma opacity_iff:
  assumes il: "i < length fs"
    and t: "t = transparency_hole \<or> t = extra_opacity"
  shows "(\<exists>a \<in> set (frameAnomaliesAt e opts fs i). atype a = t \<and> severity a = sev)
         \<longleftrightarrow> (\<exists>a \<in> set (opacityPart (opacityIQRMultiplier opts)
                             (calculateMedianStats (analyzeAll fs)) (analyzeAll fs)
                             (analyzeAll fs ! i)).
                atype a = t \<and> severity a = sev)"
proof -
  let ?stats = "calculateMedianStats (analyzeAll fs)"
  let ?f = "analyzeAll fs ! i"
  let ?h = "histogramAnomalies (colorRatioThreshold opts) ?stats ?f"
  let ?o = "opacityPart (opacityIQRMultiplier opts) ?stats (analyzeAll fs) ?f"
  let ?l = "haloPart (analyzeAll fs) ?f"
  obtain s d where fa: "frameAnomaliesAt e opts fs i = ?h @ ?o @ ?l @ s @ d"
    and s: "\<forall>a \<in> set s. atype a = structural_damage"
    and d: "\<forall>a \<in> set d. atype a = pixel_outlier"
    using frameAnomaliesAt_parts [OF il, of e opts] by auto
  have nh: "\<forall>a \<in> set ?h. atype a \<noteq> t" using histogram_types t by fastforce
  have nl: "\<forall>a \<in> set ?l. atype a \<noteq> t" using halo_types t by fastforce
  have ns: "\<forall>a \<in> set s. atype a \<noteq> t" using s t by auto
  have nd: "\<forall>a \<in> set d. atype a \<noteq> t" using d t by auto
  show ?thesis unfolding fa using nh nl ns nd by auto
qed

text \<open>
  What the alpha pass does with the opaque ratio \<open>r\<close> of a frame, for a multiplier
  that is not negative: a \<open>transparency_hole\<close> exactly when \<open>r\<close> is below the lower
  bound, \<open>severe\<close> exactly when \<open>r\<close> is more than one IQR below it; an
  \<open>extra_opacity\<close> exactly when \<open>r\<close> is above the upper bound, and then always
  \<open>moderate\<close>.
\<close>

lemma opacity_outlier_flags:
  assumes n3: "3 \<le> length fs" and il: "i < length fs"
    and k0: "0 \<le> opacityIQRMultiplier opts"
  shows "let r = opaqueRatio (alpha (analyzeAll fs ! i));
             lower = opacityLowerBound (opacityIQRMultiplier opts) (analyzeAll fs);
             upper = opacityUpperBound (opacityIQRMultiplier opts) (analyzeAll fs);
             iqr = opacityIQR (analyzeAll fs);
             flagged = (\<lambda>t sev. \<exists>b \<in> set (badFrames (detectBadFrames e opts fs)).
                          index b = i \<and> (\<exists>a \<in> set (reasons b). atype a = t \<and> severity a = sev))
         in (flagged transparency_hole sev \<longleftrightarrow>
               r < lower \<and> sev = (if r < lower - iqr then severe else moderate))
          \<and> (flagged extra_opacity sev \<longleftrightarrow> upper < r \<and> sev = moderate)"
proof -
  let ?fa = "analyzeAll fs"
  let ?stats = "calculateMedianStats ?fa"
  let ?k = "opacityIQRMultiplier opts"
  let ?r = "opaqueRatio (alpha (?fa ! i))"
  have ne: "?fa \<noteq> []" using il length_analyzeAll [of fs] by auto
  have ord: "opacityLowerBound ?k ?fa \<le> med_opaqueRatio ?stats"
    "med_opaqueRatio ?stats \<le> opacityUpperBound ?k ?fa" "0 \<le> opacityIQR ?fa"
    using opacity_bounds_order [OF ne k0] by simp_all
  have fl: "(\<exists>b \<in> set (badFrames (detectBadFrames e opts fs)).
               index b = i \<and> (\<exists>a \<in> set (reasons b). atype a = t \<and> severity a = sev))
            \<longleftrightarrow> (\<exists>a \<in> set (opacityPart ?k ?stats ?fa (?fa ! i)). atype a = t \<and> severity a = sev)"
    if "t = transparency_hole \<or> t = extra_opacity" for t
    using flagged_iff [OF n3, of e opts i "\<lambda>a. atype a = t \<and> severity a = sev"]
      opacity_iff [OF il that, of e opts sev] by simp
  have hole: "(\<exists>a \<in> set (opacityPart ?k ?stats ?fa (?fa ! i)).
                 atype a = transparency_hole \<and> severity a = sev)
              \<longleftrightarrow> ?r < opacityLowerBound ?k ?fa
                  \<and> sev = (if ?r < opacityLowerBound ?k ?fa - opacityIQR ?fa
                           then severe else moderate)"
    using ord by (auto simp: opacityPart_def opacityAnomaly_def)
  have extra: "(\<exists>a \<in> set (opacityPart ?k ?stats ?fa (?fa ! i)).
                 atype a = extra_opacity \<and> severity a = sev)
              \<longleftrightarrow> opacityUpperBound ?k ?fa < ?r \<and> sev = moderate"
    using ord by (auto simp: opacityPart_def opacityAnomaly_def)
  show ?thesis
    unfolding Let_def using fl [of transparency_hole] fl [of extra_opacity] hole extra by simp
qed

text \<open>
  Claim C5, evaluated where it fails. Four fully transparent frames and one fully
  opaque frame: \<open>Q1 = Q3 = 0\<close>, so the IQR and the upper bound are 0. The opaque
  frame has ratio 1, which is more than one IQR above the upper bound, and its
  \<open>extra_opacity\<close> record is \<open>moderate\<close>.
\<close>

theorem extra_opacity_severity_evaluated:
  "opaqueRatio (alpha (analyzeAll fiveFrames ! 4)) = 1
   \<and> opacityUpperBound (opacityIQRMultiplier defaultOptions) (analyzeAll fiveFrames) = 0
   \<and> opacityIQR (analyzeAll fiveFrames) = 0
   \<and> map index (badFrames (detectBadFrames fixedExt defaultOptions fiveFrames)) = [4]
   \<and> map atype (reasons (hd (badFrames (detectBadFrames fixedExt defaultOptions fiveFrames))))
       = [extra_opacity]
   \<and> map severity (reasons (hd (badFrames (detectBadFrames fixedExt defaultOptions fiveFrames))))
       = [moderate]"
  by code_simp

subsection \<open>What the verifier finds\<close>

lemma verifyFrames_passed:
  assumes "verifyFrames e fs = Inr v"
  shows "passed v \<longleftrightarrow> issues v = []"
  using assms by (auto simp: verifyFrames_char split: if_splits)

lemma autoFix_verifies_output:
  assumes "autoFix e opts fs = Inr res"
  shows "verifyFrames e (frames res) = Inr (verificationDetails (report res))
       \<and> verified (report res) = passed (verificationDetails (report res))"
  using assms by (auto simp: autoFix_def Let_def split: sum.splits)

text \<open>
  When the verifier returns, which it does for at most two frames and whenever the
  three sampled frames have raw buffers of one length, its findings are these:
  \<open>passed\<close> holds exactly when the list of issues is empty; there is an
  inconsistent-sizes issue exactly when two frames differ in width or height; for more
  than two frames there is a large-variance issue for a ratio exactly when that ratio
  is the one of the first and middle frame \<open>floor(N/2)\<close>, or of the middle and last
  frame, and exceeds 0.30; for at most two frames there is no large-variance issue.
\<close>

lemma verifyFrames_findings:
  assumes r: "verifyFrames e fs = Inr v"
  shows "(passed v \<longleftrightarrow> issues v = [])
   \<and> ((\<exists>s. InconsistentSizes s \<in> set (issues v)) \<longleftrightarrow>
        (\<exists>i < length fs. \<exists>j < length fs.
           (fwidth (fs ! i), fheight (fs ! i)) \<noteq> (fwidth (fs ! j), fheight (fs ! j))))
   \<and> (2 < length fs \<longrightarrow>
        (\<forall>q. LargeVariance q \<in> set (issues v) \<longleftrightarrow>
               0.30 < q \<and> (q = sampleRatio e fs 0 (length fs div 2)
                           \<or> q = sampleRatio e fs (length fs div 2) (length fs - 1))))
   \<and> (\<not> 2 < length fs \<longrightarrow> (\<forall>q. LargeVariance q \<notin> set (issues v)))"
proof -
  let ?metas = "map (\<lambda>buf. (fwidth buf, fheight buf)) fs"
  have iv: "issues v = expectedIssues e fs"
    using r by (auto simp: verifyFrames_char split: if_splits)
  have sz: "1 < length (rev (remdups (rev ?metas))) \<longleftrightarrow>
            (\<exists>i < length fs. \<exists>j < length fs.
               (fwidth (fs ! i), fheight (fs ! i)) \<noteq> (fwidth (fs ! j), fheight (fs ! j)))"
  proof -
    have "(\<exists>i < length ?metas. \<exists>j < length ?metas. ?metas ! i \<noteq> ?metas ! j) \<longleftrightarrow>
          (\<exists>i < length fs. \<exists>j < length fs.
               (fwidth (fs ! i), fheight (fs ! i)) \<noteq> (fwidth (fs ! j), fheight (fs ! j)))"
      by (simp cong: conj_cong)
    then show ?thesis by (simp only: sizes_differ_iff [of ?metas])
  qed
  have A: "passed v \<longleftrightarrow> issues v = []"
    using r by (rule verifyFrames_passed)
  have B: "(\<exists>s. InconsistentSizes s \<in> set (issues v)) \<longleftrightarrow>
        (\<exists>i < length fs. \<exists>j < length fs.
           (fwidth (fs ! i), fheight (fs ! i)) \<noteq> (fwidth (fs ! j), fheight (fs ! j)))"
  proof -
    have "(\<exists>s. InconsistentSizes s \<in> set (issues v)) \<longleftrightarrow>
          1 < length (rev (remdups (rev ?metas)))"
      by (auto simp: iv expectedIssues_def)
    then show ?thesis using sz by blast
  qed
  have C: "2 < length fs \<Longrightarrow>
        (LargeVariance q \<in> set (issues v) \<longleftrightarrow>
               0.30 < q \<and> (q = sampleRatio e fs 0 (length fs div 2)
                           \<or> q = sampleRatio e fs (length fs div 2) (length fs - 1)))" for q
    by (auto simp: iv expectedIssues_def)
  have D: "\<not> 2 < length fs \<Longrightarrow> LargeVariance q \<notin> set (issues v)" for q
    by (auto simp: iv expectedIssues_def)
  show ?thesis using A B C D by blast
qed

text \<open>
  Three frames of one size, the middle one red between two black ones: the verifier
  returns, with one large-variance issue for each of the two sampled pairs.
\<close>

lemma verifyFrames_red_between_black:
  "verifyFrames differExt [onePixel 0 255, onePixel 255 255, onePixel 0 255] =
     Inr \<lparr>passed = False, issues = [LargeVariance 1, LargeVariance 1]\<rparr>"
proof -
  let ?fs = "[onePixel 0 255, onePixel 255 255, onePixel 0 255]"
  have n: "length ?fs div 2 = 1" "length ?fs - 1 = 2" by simp_all
  have m: "samplesMatch ?fs"
    unfolding samplesMatch_def n by (simp add: rawLength_def onePixel_def)
  have r: "sampleRatio differExt ?fs 0 1 = 1" "sampleRatio differExt ?fs 1 2 = 1"
    by (simp_all add: sampleRatio_def differExt_def onePixel_def)
  have "expectedIssues differExt ?fs = [LargeVariance 1, LargeVariance 1]"
    unfolding expectedIssues_def n r by (simp add: onePixel_def)
  then show ?thesis using m by (simp add: verifyFrames_char)
qed

text \<open>
  The verifier returns for every sequence of at most two frames, and for a longer one
  exactly when the middle and the last frame have as many pixels as the first.
\<close>

lemma verifyFrames_returns_iff:
  "(\<exists>v. verifyFrames e fs = Inr v) \<longleftrightarrow> \<not> 2 < length fs \<or> samplesMatch fs"
  by (auto simp: verifyFrames_char)


subsection \<open>The bounding box scan\<close>

lemma scanPixel_inv:
  assumes "bboxInv w h S acc" and "x < w" and "y < h"
  shows "bboxInv w h (if isContent d w x y then insert (x, y) S else S) (scanPixel d w y x acc)"
proof (cases "isContent d w x y")
  case False
  obtain a b c e where acc: "acc = (a, b, c, e)" by (cases acc) auto
  have "scanPixel d w y x acc = acc"
    using False by (auto simp add: scanPixel_def isContent_def Let_def acc)
  then show ?thesis using assms(1) False by simp
next
  case True
  obtain a b c e where acc: "acc = (a, b, c, e)" by (cases acc) auto
  have sp: "scanPixel d w y x acc = (min a x, max b x, min c y, max e y)"
    using True by (simp add: scanPixel_def isContent_def Let_def acc)
  show ?thesis
  proof (cases "S = {}")
    case True
    then have "acc = (w, 0, h, 0)" using assms(1) by (simp add: bboxInv_def acc)
    then have "scanPixel d w y x acc = (x, x, y, y)"
      using sp acc assms(2,3) by (simp add: min_def max_def)
    then show ?thesis using \<open>isContent d w x y\<close> True by (simp add: bboxInv_def)
  next
    case False
    then have inv: "\<forall>p \<in> S. a \<le> fst p \<and> fst p \<le> b \<and> c \<le> snd p \<and> snd p \<le> e"
      "\<exists>y. (a, y) \<in> S" "\<exists>y. (b, y) \<in> S" "\<exists>x. (x, c) \<in> S" "\<exists>x. (x, e) \<in> S"
      using assms(1) by (simp_all add: bboxInv_def acc)
    have b1: "\<forall>p \<in> insert (x, y) S. min a x \<le> fst p \<and> fst p \<le> max b x
                \<and> min c y \<le> snd p \<and> snd p \<le> max e y"
      using inv(1) by (auto simp: min_def max_def)
    have w1: "\<exists>y'. (min a x, y') \<in> insert (x, y) S"
      using inv(2) by (cases "a \<le> x") (auto simp: min_def)
    have w2: "\<exists>y'. (max b x, y') \<in> insert (x, y) S"
      using inv(3) by (cases "b \<le> x") (auto simp: max_def)
    have w3: "\<exists>x'. (x', min c y) \<in> insert (x, y) S"
      using inv(4) by (cases "c \<le> y") (auto simp: min_def)
    have w4: "\<exists>x'. (x', max e y) \<in> insert (x, y) S"
      using inv(5) by (cases "e \<le> y") (auto simp: max_def)
    show ?thesis
      using \<open>isContent d w x y\<close> b1 w1 w2 w3 w4 by (simp add: bboxInv_def sp)
  qed
qed

lemma scanRow_inv:
  assumes "bboxInv w h S acc" and "y < h" and "j \<le> w"
  shows "bboxInv w h (S \<union> {(x, y') . y' = y \<and> x < j \<and> isContent d w x y})
           (fold (scanPixel d w y) [0..<j] acc)"
  using assms(3)
proof (induction j)
  case 0
  then show ?case using assms(1) by simp
next
  case (Suc j)
  let ?S = "S \<union> {(x, y') . y' = y \<and> x < j \<and> isContent d w x y}"
  have ih: "bboxInv w h ?S (fold (scanPixel d w y) [0..<j] acc)" using Suc by simp
  have jw: "j < w" using Suc.prems by simp
  have eq: "(if isContent d w j y then insert (j, y) ?S else ?S) =
            S \<union> {(x, y') . y' = y \<and> x < Suc j \<and> isContent d w x y}"
    by (auto simp: less_Suc_eq)
  show ?case
    using scanPixel_inv [OF ih jw assms(2), of d] by (simp add: eq)
qed

lemma scanRows_inv:
  assumes "k \<le> h"
  shows "bboxInv w h {(x, y). x < w \<and> y < k \<and> isContent d w x y}
           (fold (\<lambda>y. fold (scanPixel d w y) [0..<w]) [0..<k] (w, 0, h, 0))"
  using assms
proof (induction k)
  case 0
  then show ?case by (simp add: bboxInv_def)
next
  case (Suc k)
  let ?S = "{(x, y). x < w \<and> y < k \<and> isContent d w x y}"
  have ih: "bboxInv w h ?S (fold (\<lambda>y. fold (scanPixel d w y) [0..<w]) [0..<k] (w, 0, h, 0))"
    using Suc by simp
  have kh: "k < h" using Suc.prems by simp
  have eq: "?S \<union> {(x, y') . y' = k \<and> x < w \<and> isContent d w x k} =
            {(x, y). x < w \<and> y < Suc k \<and> isContent d w x y}"
    by (auto simp: less_Suc_eq)
  show ?case
    using scanRow_inv [OF ih kh, of w d] by (simp add: eq)
qed

lemma scanAll_inv: "bboxInv w h (contentSet d w h) (scanAll d w h)"
  using scanRows_inv [of h h w d] by (simp add: scanAll_def contentSet_def)

lemma findContentBounds_blank:
  assumes "contentSet d w h = {}" and "0 < w"
  shows "findContentBounds d w h = \<lparr>rx = 0, ry = 0, rwidth = w, rheight = h\<rparr>"
proof -
  have "scanAll d w h = (w, 0, h, 0)"
    using scanAll_inv [of w h d] assms(1) by (simp add: bboxInv_def split: prod.splits)
  then show ?thesis using assms(2) by (simp add: findContentBounds_def)
qed

lemma findContentBounds_tight:
  assumes "contentSet d w h \<noteq> {}"
  shows "tightBox (contentSet d w h) (findContentBounds d w h)"
proof -
  obtain a b c e where s: "scanAll d w h = (a, b, c, e)" by (cases "scanAll d w h") auto
  let ?S = "contentSet d w h"
  have inv: "\<forall>p \<in> ?S. a \<le> fst p \<and> fst p \<le> b \<and> c \<le> snd p \<and> snd p \<le> e"
    "\<exists>y. (a, y) \<in> ?S" "\<exists>y. (b, y) \<in> ?S" "\<exists>x. (x, c) \<in> ?S" "\<exists>x. (x, e) \<in> ?S"
    using scanAll_inv [of w h d] assms by (simp_all add: bboxInv_def s)
  have ab: "a \<le> b" using inv(1,2) by fastforce
  have ce: "c \<le> e" using inv(1,4) by fastforce
  have f: "findContentBounds d w h = \<lparr>rx = a, ry = c, rwidth = b - a + 1, rheight = e - c + 1\<rparr>"
    using ab ce by (simp add: findContentBounds_def s)
  have r1: "a + (b - a) = b" "c + (e - c) = e" using ab ce by simp_all
  have bd: "\<forall>p \<in> ?S. a \<le> fst p \<and> fst p < a + (b - a + 1) \<and> c \<le> snd p \<and> snd p < c + (e - c + 1)"
    using inv(1) ab ce by fastforce
  show ?thesis
    unfolding tightBox_def f using bd inv(2-5) by (simp add: r1)
qed

lemma tightBox_unique:
  assumes "tightBox S r" and "tightBox S r'"
  shows "r = r'"
proof -
  have "rx r \<le> rx r'" "rx r' \<le> rx r" "ry r \<le> ry r'" "ry r' \<le> ry r"
    "rx r + rwidth r - 1 < rx r' + rwidth r'" "rx r' + rwidth r' - 1 < rx r + rwidth r"
    "ry r + rheight r - 1 < ry r' + rheight r'" "ry r' + rheight r' - 1 < ry r + rheight r"
    using assms unfolding tightBox_def by fastforce+
  moreover have "0 < rwidth r" "0 < rwidth r'" "0 < rheight r" "0 < rheight r'"
    using assms by (simp_all add: tightBox_def)
  ultimately have "rx r = rx r' \<and> ry r = ry r' \<and> rwidth r = rwidth r' \<and> rheight r = rheight r'"
    by linarith
  then show ?thesis by simp
qed

subsection \<open>Raw buffers built from pixels\<close>

lemma concat_uniform:
  assumes "\<forall>i < n. length (g i) = 4"
  shows "length (concat (map g [0..<n])) = 4 * n
       \<and> (\<forall>i < n. \<forall>k < 4. concat (map g [0..<n]) ! (i * 4 + k) = g i ! k)"
  using assms
proof (induction n)
  case 0
  then show ?case by simp
next
  case (Suc n)
  let ?c = "concat (map g [0..<n])"
  have ih: "length ?c = 4 * n" "\<forall>i < n. \<forall>k < 4. ?c ! (i * 4 + k) = g i ! k"
    using Suc by simp_all
  have gn: "length (g n) = 4" using Suc.prems by simp
  have c: "concat (map g [0..<Suc n]) = ?c @ g n" by simp
  have "(?c @ g n) ! (i * 4 + k) = g i ! k" if "i < Suc n" "k < 4" for i k
  proof (cases "i < n")
    case True
    then have "i * 4 + k < length ?c" using that(2) ih(1) by simp
    then show ?thesis using ih(2) True that(2) by (simp add: nth_append)
  next
    case False
    then have "i = n" using that(1) by simp
    then show ?thesis using ih(1) by (simp add: nth_append)
  qed
  then show ?case unfolding c using ih(1) gn by simp
qed

lemma pixel_index:
  fixes x y w h :: nat
  assumes "x < w" and "y < h"
  shows "y * w + x < w * h \<and> (y * w + x) mod w = x \<and> (y * w + x) div w = y"
proof -
  have "y * w + x < (y + 1) * w" using assms(1) by simp
  also have "\<dots> \<le> h * w" using assms(2) by (intro mult_le_mono1) simp
  finally have "y * w + x < w * h" by (simp add: mult.commute)
  then show ?thesis using assms(1) by simp
qed

lemma length_makeData:
  "\<forall>x < w. \<forall>y < h. length (f x y) = 4 \<Longrightarrow> length (makeData w h f) = w * h * 4"
proof -
  assume a: "\<forall>x < w. \<forall>y < h. length (f x y) = 4"
  have "\<forall>i < w * h. length (f (i mod w) (i div w)) = 4"
  proof (intro allI impI)
    fix i assume i: "i < w * h"
    then have "0 < w" by (cases w) auto
    then have "i mod w < w" by simp
    moreover have "i div w < h" using i by (simp add: less_mult_imp_div_less mult.commute)
    ultimately show "length (f (i mod w) (i div w)) = 4" using a by simp
  qed
  then show ?thesis
    using concat_uniform [of "w * h" "\<lambda>i. f (i mod w) (i div w)"] by (simp add: makeData_def)
qed

lemma nth_makeData:
  assumes a: "\<forall>x < w. \<forall>y < h. length (f x y) = 4" and "x < w" and "y < h" and "k < 4"
  shows "makeData w h f ! ((y * w + x) * 4 + k) = f x y ! k"
proof -
  have u: "\<forall>i < w * h. length (f (i mod w) (i div w)) = 4"
  proof (intro allI impI)
    fix i assume i: "i < w * h"
    then have "0 < w" by (cases w) auto
    then have "i mod w < w" by simp
    moreover have "i div w < h" using i by (simp add: less_mult_imp_div_less mult.commute)
    ultimately show "length (f (i mod w) (i div w)) = 4" using a by simp
  qed
  have p: "y * w + x < w * h" "(y * w + x) mod w = x" "(y * w + x) div w = y"
    using pixel_index [OF assms(2,3)] by simp_all
  have "concat (map (\<lambda>i. f (i mod w) (i div w)) [0..<w * h]) ! ((y * w + x) * 4 + k)
        = f ((y * w + x) mod w) ((y * w + x) div w) ! k"
    using concat_uniform [OF u] p(1) assms(4) by blast
  then show ?thesis unfolding makeData_def p .
qed

lemma pixelAt_made:
  assumes a: "\<forall>x < w. \<forall>y < h. length (f x y) = 4" and "x < w" and "y < h"
    and "fwidth img = w" and "fdata img = makeData w h f"
  shows "pixelAt img x y = f x y"
proof (rule nth_equalityI)
  have len: "length (makeData w h f) = w * h * 4" using a by (rule length_makeData)
  have p: "y * w + x < w * h" using pixel_index [OF assms(2,3)] by simp
  then have "(y * w + x) * 4 + 4 \<le> w * h * 4" by simp
  then show l: "length (pixelAt img x y) = length (f x y)"
    using a assms(2-5) len by (simp add: pixelAt_def)
  fix k assume "k < length (pixelAt img x y)"
  then have k: "k < 4" using l a assms(2,3) by simp
  then have "pixelAt img x y ! k = makeData w h f ! ((y * w + x) * 4 + k)"
    using \<open>(y * w + x) * 4 + 4 \<le> w * h * 4\<close> len assms(4,5) by (simp add: pixelAt_def)
  then show "pixelAt img x y ! k = f x y ! k"
    using nth_makeData [OF a assms(2,3) k] by simp
qed

lemma makeData_cong:
  assumes "\<forall>x < w. \<forall>y < h. f x y = g x y"
  shows "makeData w h f = makeData w h g"
proof -
  have "f (i mod w) (i div w) = g (i mod w) (i div w)" if "i < w * h" for i
  proof -
    have "0 < w" using that by (cases w) auto
    then have "i mod w < w" by simp
    moreover have "i div w < h" using that by (simp add: less_mult_imp_div_less mult.commute)
    ultimately show ?thesis using assms by simp
  qed
  then show ?thesis unfolding makeData_def by (intro arg_cong [where f = concat] map_cong) auto
qed

lemma length_pixelAt:
  assumes "wfFrame f" and "x < fwidth f" and "y < fheight f"
  shows "length (pixelAt f x y) = 4"
proof -
  have "y * fwidth f + x < fwidth f * fheight f" using pixel_index [OF assms(2,3)] by simp
  then have "(y * fwidth f + x) * 4 + 4 \<le> length (fdata f)"
    using assms(1) by (simp add: wfFrame_def)
  then show ?thesis by (simp add: pixelAt_def)
qed

lemma alpha_pixelAt:
  assumes "wfFrame f" and "x < fwidth f" and "y < fheight f"
  shows "isContent (fdata f) (fwidth f) x y \<longleftrightarrow> ALPHA_THRESHOLD < pixelAt f x y ! 3"
proof -
  have "y * fwidth f + x < fwidth f * fheight f" using pixel_index [OF assms(2,3)] by simp
  then have "(y * fwidth f + x) * 4 + 4 \<le> length (fdata f)"
    using assms(1) by (simp add: wfFrame_def)
  then show ?thesis by (simp add: pixelAt_def isContent_def)
qed

lemma frameContent_iff:
  assumes "wfFrame f"
  shows "(x, y) \<in> frameContent f \<longleftrightarrow>
           x < fwidth f \<and> y < fheight f \<and> ALPHA_THRESHOLD < pixelAt f x y ! 3"
  using alpha_pixelAt [OF assms] by (auto simp: frameContent_def contentSet_def)

subsection \<open>Cropping and compositing\<close>

lemma boundsOf_blank:
  "wfFrame f \<Longrightarrow> frameContent f = {} \<Longrightarrow>
   boundsOf f = \<lparr>rx = 0, ry = 0, rwidth = fwidth f, rheight = fheight f\<rparr>"
  by (simp add: boundsOf_def frameContent_def wfFrame_def findContentBounds_blank)

lemma boundsOf_tight: "frameContent f \<noteq> {} \<Longrightarrow> tightBox (frameContent f) (boundsOf f)"
  by (simp add: boundsOf_def frameContent_def findContentBounds_tight)

lemma frameContent_range: "(x, y) \<in> frameContent f \<Longrightarrow> x < fwidth f \<and> y < fheight f"
  by (simp add: frameContent_def contentSet_def)

lemma boundsOf_inside:
  assumes "wfFrame f"
  shows "0 < rwidth (boundsOf f) \<and> 0 < rheight (boundsOf f)
       \<and> rx (boundsOf f) + rwidth (boundsOf f) \<le> fwidth f
       \<and> ry (boundsOf f) + rheight (boundsOf f) \<le> fheight f"
proof (cases "frameContent f = {}")
  case True
  then show ?thesis using assms boundsOf_blank [OF assms True] by (simp add: wfFrame_def)
next
  case False
  let ?r = "boundsOf f"
  have t: "tightBox (frameContent f) ?r" using False by (rule boundsOf_tight)
  then obtain y x where "(rx ?r + rwidth ?r - 1, y) \<in> frameContent f"
    "(x, ry ?r + rheight ?r - 1) \<in> frameContent f"
    unfolding tightBox_def by blast
  then have "rx ?r + rwidth ?r - 1 < fwidth f" "ry ?r + rheight ?r - 1 < fheight f"
    using frameContent_range by blast+
  moreover have "0 < rwidth ?r" "0 < rheight ?r" using t by (simp_all add: tightBox_def)
  ultimately show ?thesis by linarith
qed

lemma extractRegion_props:
  assumes wf: "wfFrame f" and w: "0 < w" and h: "0 < h"
    and iw: "left + w \<le> fwidth f" and ih: "topY + h \<le> fheight f"
  shows "wfFrame (extractRegion f left topY w h)"
    and "\<forall>x < w. \<forall>y < h. pixelAt (extractRegion f left topY w h) x y
                              = pixelAt f (left + x) (topY + y)"
    and "frameContent (extractRegion f left topY w h) =
           {(x, y). x < w \<and> y < h \<and> (left + x, topY + y) \<in> frameContent f}"
proof -
  let ?g = "\<lambda>x y. pixelAt f (left + x) (topY + y)"
  let ?c = "extractRegion f left topY w h"
  have len: "\<forall>x < w. \<forall>y < h. length (?g x y) = 4"
    using length_pixelAt [OF wf] iw ih by simp
  show wfc: "wfFrame ?c"
    using w h length_makeData [OF len] by (simp add: wfFrame_def extractRegion_def)
  show px: "\<forall>x < w. \<forall>y < h. pixelAt ?c x y = ?g x y"
    using pixelAt_made [OF len, of _ _ ?c] by (simp add: extractRegion_def)
  have fw: "fwidth ?c = w" "fheight ?c = h" by (simp_all add: extractRegion_def)
  show "frameContent ?c = {(x, y). x < w \<and> y < h \<and> (left + x, topY + y) \<in> frameContent f}"
  proof (rule set_eqI, clarify)
    fix x y
    show "(x, y) \<in> frameContent ?c \<longleftrightarrow>
          (x, y) \<in> {(x, y). x < w \<and> y < h \<and> (left + x, topY + y) \<in> frameContent f}"
    proof (cases "x < w \<and> y < h")
      case True
      then have "left + x < fwidth f" "topY + y < fheight f" using iw ih by simp_all
      then show ?thesis
        using True px by (simp add: frameContent_iff [OF wfc] frameContent_iff [OF wf] fw)
    next
      case False
      then show ?thesis using frameContent_range [of x y ?c] by (auto simp: fw)
    qed
  qed
qed

lemma composite_props:
  assumes wf: "wfFrame c"
    and iw: "left + fwidth c \<le> cw" and ih: "topY + fheight c \<le> ch"
  shows "wfFrame (composite cw ch c left topY)"
    and "\<forall>x < fwidth c. \<forall>y < fheight c.
           pixelAt (composite cw ch c left topY) (left + x) (topY + y) = pixelAt c x y"
    and "frameContent (composite cw ch c left topY) =
           {(x, y). left \<le> x \<and> topY \<le> y \<and> (x - left, y - topY) \<in> frameContent c}"
proof -
  let ?g = "\<lambda>x y. if left \<le> x \<and> x < left + fwidth c \<and> topY \<le> y \<and> y < topY + fheight c
                   then pixelAt c (x - left) (y - topY) else [0, 0, 0, 0]"
  let ?o = "composite cw ch c left topY"
  have cpos: "0 < cw" "0 < ch" using wf iw ih by (simp_all add: wfFrame_def)
  have len: "\<forall>x < cw. \<forall>y < ch. length (?g x y) = 4"
  proof (intro allI impI)
    fix x y
    show "length (?g x y) = 4"
    proof (cases "left \<le> x \<and> x < left + fwidth c \<and> topY \<le> y \<and> y < topY + fheight c")
      case True
      then have "x - left < fwidth c" "y - topY < fheight c" by auto
      then show ?thesis using True length_pixelAt [OF wf] by simp
    next
      case False
      then show ?thesis by auto
    qed
  qed
  show wfo: "wfFrame ?o"
    using cpos length_makeData [OF len] by (simp add: wfFrame_def composite_def)
  have px: "\<forall>x < cw. \<forall>y < ch. pixelAt ?o x y = ?g x y"
    using pixelAt_made [OF len, of _ _ ?o] by (simp add: composite_def)
  show "\<forall>x < fwidth c. \<forall>y < fheight c. pixelAt ?o (left + x) (topY + y) = pixelAt c x y"
  proof (intro allI impI)
    fix x y assume "x < fwidth c" "y < fheight c"
    then have "left + x < cw" "topY + y < ch" using iw ih by simp_all
    then have "pixelAt ?o (left + x) (topY + y) = ?g (left + x) (topY + y)" using px by blast
    then show "pixelAt ?o (left + x) (topY + y) = pixelAt c x y"
      using \<open>x < fwidth c\<close> \<open>y < fheight c\<close> by simp
  qed
  have fw: "fwidth ?o = cw" "fheight ?o = ch" by (simp_all add: composite_def)
  have z: "\<not> ALPHA_THRESHOLD < [0, 0, 0, 0 :: nat] ! 3" by (simp add: ALPHA_THRESHOLD_def)
  show "frameContent ?o = {(x, y). left \<le> x \<and> topY \<le> y \<and> (x - left, y - topY) \<in> frameContent c}"
  proof (rule set_eqI, clarify)
    fix x y
    show "(x, y) \<in> frameContent ?o \<longleftrightarrow>
          (x, y) \<in> {(x, y). left \<le> x \<and> topY \<le> y \<and> (x - left, y - topY) \<in> frameContent c}"
    proof (cases "left \<le> x \<and> x < left + fwidth c \<and> topY \<le> y \<and> y < topY + fheight c")
      case True
      then have in_c: "x < cw" "y < ch" "x - left < fwidth c" "y - topY < fheight c"
        using iw ih by auto
      then have "pixelAt ?o x y = pixelAt c (x - left) (y - topY)" using px True by simp
      then show ?thesis
        using True in_c by (simp add: frameContent_iff [OF wfo] frameContent_iff [OF wf] fw)
    next
      case False
      have "(x, y) \<notin> frameContent ?o"
      proof (cases "x < cw \<and> y < ch")
        case True
        then have "pixelAt ?o x y = ?g x y" using px by blast
        then have "pixelAt ?o x y = [0, 0, 0, 0]" using False by auto
        then show ?thesis using z by (simp add: frameContent_iff [OF wfo])
      next
        case False
        then show ?thesis using frameContent_range [of x y ?o] by (auto simp: fw)
      qed
      moreover have "\<not> (left \<le> x \<and> topY \<le> y \<and> (x - left, y - topY) \<in> frameContent c)"
        using False frameContent_range [of "x - left" "y - topY" c] by auto
      ultimately show ?thesis by simp
    qed
  qed
qed

subsection \<open>One stabilized frame\<close>

lemma Math_max_fold: "(a::nat) \<le> fold max xs a \<and> (\<forall>x \<in> set xs. x \<le> fold max xs a)
                      \<and> fold max xs a \<in> insert a (set xs)"
proof (induction xs arbitrary: a)
  case Nil
  then show ?case by simp
next
  case (Cons x xs)
  have ih: "max x a \<le> fold max xs (max x a)" "\<forall>y \<in> set xs. y \<le> fold max xs (max x a)"
    "fold max xs (max x a) \<in> insert (max x a) (set xs)"
    using Cons.IH [of "max x a"] by simp_all
  have "max x a = x \<or> max x a = a" by (simp add: max_def)
  then show ?case using ih by auto
qed

lemma Math_max_ge: "x \<in> set xs \<Longrightarrow> x \<le> Math_max xs"
  using Math_max_fold [of 0 xs] by (simp add: Math_max_def)

lemma Math_max_mem: "xs \<noteq> [] \<Longrightarrow> Math_max xs \<in> set xs"
proof -
  assume ne: "xs \<noteq> []"
  have m: "Math_max xs \<in> insert 0 (set xs)"
    using Math_max_fold [of 0 xs] by (simp add: Math_max_def)
  show ?thesis
  proof (cases "Math_max xs \<in> set xs")
    case True
    then show ?thesis .
  next
    case False
    then have z: "Math_max xs = 0" using m by simp
    obtain x where x: "x \<in> set xs" using ne by (cases xs) auto
    then have "x = 0" using Math_max_ge [OF x] z by simp
    then show ?thesis using x z by simp
  qed
qed

lemma stabilizeOne_unfold:
  "stabilizeOne cw ch f =
     composite cw ch
       (extractRegion f (rx (boundsOf f)) (ry (boundsOf f)) (rwidth (boundsOf f))
          (rheight (boundsOf f)))
       ((cw - rwidth (boundsOf f)) div 2) (ch - rheight (boundsOf f))"
  by (simp add: stabilizeOne_def Let_def floorHalf_div)

lemma stabilizeOne_props:
  assumes wf: "wfFrame f" and bw: "rwidth (boundsOf f) \<le> cw" and bh: "rheight (boundsOf f) \<le> ch"
  shows "wfFrame (stabilizeOne cw ch f)"
    and "fwidth (stabilizeOne cw ch f) = cw" and "fheight (stabilizeOne cw ch f) = ch"
    and "frameContent f = {} \<Longrightarrow>
           boundsOf (stabilizeOne cw ch f) = \<lparr>rx = 0, ry = 0, rwidth = cw, rheight = ch\<rparr>"
    and "frameContent f \<noteq> {} \<Longrightarrow>
           boundsOf (stabilizeOne cw ch f) =
             \<lparr>rx = (cw - rwidth (boundsOf f)) div 2, ry = ch - rheight (boundsOf f),
              rwidth = rwidth (boundsOf f), rheight = rheight (boundsOf f)\<rparr>"
    and "\<forall>x < rwidth (boundsOf f). \<forall>y < rheight (boundsOf f).
           pixelAt (stabilizeOne cw ch f)
             ((cw - rwidth (boundsOf f)) div 2 + x) (ch - rheight (boundsOf f) + y)
           = pixelAt f (rx (boundsOf f) + x) (ry (boundsOf f) + y)"
proof -
  let ?r = "boundsOf f"
  let ?c = "extractRegion f (rx ?r) (ry ?r) (rwidth ?r) (rheight ?r)"
  let ?l = "(cw - rwidth ?r) div 2"
  let ?t = "ch - rheight ?r"
  let ?o = "stabilizeOne cw ch f"
  have ins: "0 < rwidth ?r" "0 < rheight ?r" "rx ?r + rwidth ?r \<le> fwidth f"
    "ry ?r + rheight ?r \<le> fheight f"
    using boundsOf_inside [OF wf] by simp_all
  have wfc: "wfFrame ?c"
    and pxc: "\<forall>x < rwidth ?r. \<forall>y < rheight ?r. pixelAt ?c x y = pixelAt f (rx ?r + x) (ry ?r + y)"
    and cc: "frameContent ?c =
               {(x, y). x < rwidth ?r \<and> y < rheight ?r \<and> (rx ?r + x, ry ?r + y) \<in> frameContent f}"
    using extractRegion_props [OF wf ins] by blast+
  have dims: "fwidth ?c = rwidth ?r" "fheight ?c = rheight ?r" by (simp_all add: extractRegion_def)
  have fit: "?l + fwidth ?c \<le> cw" "?t + fheight ?c \<le> ch" using bw bh by (simp_all add: dims)
  have o: "?o = composite cw ch ?c ?l ?t" by (rule stabilizeOne_unfold)
  show wfo: "wfFrame ?o" unfolding o using composite_props(1) [OF wfc fit] .
  show "fwidth ?o = cw" "fheight ?o = ch" by (simp_all add: o composite_def)
  have pxo: "\<forall>x < rwidth ?r. \<forall>y < rheight ?r. pixelAt ?o (?l + x) (?t + y) = pixelAt ?c x y"
    unfolding o using composite_props(2) [OF wfc fit] by (simp add: dims)
  show "\<forall>x < rwidth ?r. \<forall>y < rheight ?r.
          pixelAt ?o (?l + x) (?t + y) = pixelAt f (rx ?r + x) (ry ?r + y)"
    using pxo pxc by simp
  have co: "frameContent ?o = {(x, y). ?l \<le> x \<and> ?t \<le> y \<and> (x - ?l, y - ?t) \<in> frameContent ?c}"
    unfolding o using composite_props(3) [OF wfc fit] .
  have cpos: "0 < cw" using bw ins(1) by simp
  have wo: "fwidth ?o = cw" "fheight ?o = ch" by (simp_all add: o composite_def)
  show "boundsOf ?o = \<lparr>rx = 0, ry = 0, rwidth = cw, rheight = ch\<rparr>" if "frameContent f = {}"
  proof -
    have "frameContent ?c = {}" using that by (simp add: cc)
    then have "frameContent ?o = {}" by (simp add: co)
    then show ?thesis using boundsOf_blank [OF wfo] by (simp add: wo)
  qed
  show "boundsOf ?o = \<lparr>rx = ?l, ry = ?t, rwidth = rwidth ?r, rheight = rheight ?r\<rparr>"
    if ne: "frameContent f \<noteq> {}"
  proof -
    have t: "tightBox (frameContent f) ?r" using ne by (rule boundsOf_tight)
    have inb: "\<forall>p \<in> frameContent f. rx ?r \<le> fst p \<and> fst p < rx ?r + rwidth ?r
                 \<and> ry ?r \<le> snd p \<and> snd p < ry ?r + rheight ?r"
      using t by (simp add: tightBox_def)
    obtain y1 y2 x1 x2 where wit: "(rx ?r, y1) \<in> frameContent f"
      "(rx ?r + rwidth ?r - 1, y2) \<in> frameContent f"
      "(x1, ry ?r) \<in> frameContent f" "(x2, ry ?r + rheight ?r - 1) \<in> frameContent f"
      using t unfolding tightBox_def by blast
    have mem: "(x, y) \<in> frameContent ?o \<longleftrightarrow>
               ?l \<le> x \<and> ?t \<le> y \<and> x - ?l < rwidth ?r \<and> y - ?t < rheight ?r
               \<and> (rx ?r + (x - ?l), ry ?r + (y - ?t)) \<in> frameContent f" for x y
      by (simp add: co cc)
    have shift: "(?l + (x - rx ?r), ?t + (y - ry ?r)) \<in> frameContent ?o"
      if "(x, y) \<in> frameContent f" for x y
    proof -
      have "rx ?r \<le> x" "x < rx ?r + rwidth ?r" "ry ?r \<le> y" "y < ry ?r + rheight ?r"
        using inb that by fastforce+
      then have a: "x - rx ?r < rwidth ?r" "y - ry ?r < rheight ?r"
        "rx ?r + (x - rx ?r) = x" "ry ?r + (y - ry ?r) = y" by simp_all
      have "?l \<le> ?l + (x - rx ?r) \<and> ?t \<le> ?t + (y - ry ?r)
            \<and> ?l + (x - rx ?r) - ?l = x - rx ?r \<and> ?t + (y - ry ?r) - ?t = y - ry ?r" by simp
      then show ?thesis using that a unfolding mem by (simp only:)
    qed
    have w1: "(?l, ?t + (y1 - ry ?r)) \<in> frameContent ?o" using shift [OF wit(1)] by simp
    have w2: "(?l + rwidth ?r - 1, ?t + (y2 - ry ?r)) \<in> frameContent ?o"
      using shift [OF wit(2)] ins(1) by simp
    have w3: "(?l + (x1 - rx ?r), ?t) \<in> frameContent ?o" using shift [OF wit(3)] by simp
    have w4: "(?l + (x2 - rx ?r), ?t + rheight ?r - 1) \<in> frameContent ?o"
      using shift [OF wit(4)] ins(2) by simp
    have ar: "l \<le> x \<Longrightarrow> x - l < b \<Longrightarrow> x < l + b" for l x b :: nat by arith
    have bnd: "\<forall>p \<in> frameContent ?o. ?l \<le> fst p \<and> fst p < ?l + rwidth ?r
                 \<and> ?t \<le> snd p \<and> snd p < ?t + rheight ?r"
    proof
      fix p assume p: "p \<in> frameContent ?o"
      obtain x y where xy: "p = (x, y)" by (cases p) auto
      have m: "?l \<le> x" "?t \<le> y" "x - ?l < rwidth ?r" "y - ?t < rheight ?r"
        using p mem [of x y] unfolding xy by blast+
      show "?l \<le> fst p \<and> fst p < ?l + rwidth ?r \<and> ?t \<le> snd p \<and> snd p < ?t + rheight ?r"
        using m ar [OF m(1) m(3)] ar [OF m(2) m(4)] by (simp add: xy)
    qed
    have tb: "tightBox (frameContent ?o)
                \<lparr>rx = ?l, ry = ?t, rwidth = rwidth ?r, rheight = rheight ?r\<rparr>"
      unfolding tightBox_def using ins(1,2) bnd w1 w2 w3 w4 by auto
    have "frameContent ?o \<noteq> {}" using w1 by auto
    then have "tightBox (frameContent ?o) (boundsOf ?o)" by (rule boundsOf_tight)
    then show ?thesis using tb by (rule tightBox_unique)
  qed
qed

subsection \<open>The stabilized sequence\<close>

lemma content_bounds_le:
  assumes "f \<in> set fs"
  shows "rwidth (boundsOf f) \<le> maxContentWidth fs \<and> rheight (boundsOf f) \<le> maxContentHeight fs"
  using assms by (simp add: maxContentWidth_def maxContentHeight_def Math_max_ge)

lemma content_bounds_attained:
  assumes "fs \<noteq> []"
  shows "(\<exists>j < length fs. rwidth (boundsOf (fs ! j)) = maxContentWidth fs)
       \<and> (\<exists>j < length fs. rheight (boundsOf (fs ! j)) = maxContentHeight fs)"
proof -
  have "maxContentWidth fs \<in> set (map (\<lambda>buf. rwidth (boundsOf buf)) fs)"
    unfolding maxContentWidth_def using assms by (intro Math_max_mem) simp
  moreover have "maxContentHeight fs \<in> set (map (\<lambda>buf. rheight (boundsOf buf)) fs)"
    unfolding maxContentHeight_def using assms by (intro Math_max_mem) simp
  ultimately show ?thesis by (auto simp: in_set_conv_nth)
qed

lemma nth_stabilizeDecoded:
  "i < length fs \<Longrightarrow>
   stabilizeDecoded fs ! i =
     stabilizeOne (maxContentWidth fs + 40) (maxContentHeight fs + 40) (fs ! i)"
  by (simp add: stabilizeDecoded_def Let_def)

lemma stabilizeFrames_Some: "stabilizeFrames (map Some fs) = Inr (stabilizeDecoded fs)"
  by (simp add: stabilizeFrames_def those_map_Some)

lemma stabilizeOne_idem:
  assumes wf: "wfFrame f" and ne: "frameContent f \<noteq> {}"
    and bw: "rwidth (boundsOf f) \<le> cw" and bh: "rheight (boundsOf f) \<le> ch"
  shows "stabilizeOne cw ch (stabilizeOne cw ch f) = stabilizeOne cw ch f"
proof -
  let ?r = "boundsOf f"
  let ?l = "(cw - rwidth ?r) div 2"
  let ?t = "ch - rheight ?r"
  let ?o = "stabilizeOne cw ch f"
  have bo: "boundsOf ?o = \<lparr>rx = ?l, ry = ?t, rwidth = rwidth ?r, rheight = rheight ?r\<rparr>"
    using stabilizeOne_props(5) [OF wf bw bh ne] .
  have px: "\<forall>x < rwidth ?r. \<forall>y < rheight ?r.
              pixelAt ?o (?l + x) (?t + y) = pixelAt f (rx ?r + x) (ry ?r + y)"
    using stabilizeOne_props(6) [OF wf bw bh] .
  have "makeData (rwidth ?r) (rheight ?r) (\<lambda>x y. pixelAt ?o (?l + x) (?t + y)) =
        makeData (rwidth ?r) (rheight ?r) (\<lambda>x y. pixelAt f (rx ?r + x) (ry ?r + y))"
    using px by (intro makeData_cong) simp
  then have crop: "extractRegion ?o ?l ?t (rwidth ?r) (rheight ?r) =
                   extractRegion f (rx ?r) (ry ?r) (rwidth ?r) (rheight ?r)"
    by (simp add: extractRegion_def)
  have "stabilizeOne cw ch ?o =
          composite cw ch (extractRegion ?o ?l ?t (rwidth ?r) (rheight ?r)) ?l ?t"
    unfolding stabilizeOne_unfold [of cw ch ?o] bo by simp
  also have "\<dots> = ?o" unfolding crop by (simp add: stabilizeOne_unfold)
  finally show ?thesis .
qed

text \<open>
  Claim C2 (amended). For well-formed frames (positive width and height, a raw buffer
  of four bytes per pixel), every stabilized frame has the dimensions
  \<open>(maxContentWidth + 40, maxContentHeight + 40)\<close>, where the maxima are taken over
  the content bounding boxes of all frames at alpha threshold 20. The content of
  each output frame is horizontally centred (its left margin is half the free width,
  rounded down) and its bottom edge is the canvas bottom; the pixels of the source
  bounding box are copied to that place, so that a frame with content keeps the size
  of its bounding box.
\<close>

theorem stabilized_canvas:
  assumes wf: "\<forall>f \<in> set fs. wfFrame f" and i: "i < length fs"
  shows "let outs = stabilizeDecoded fs;
             out = outs ! i;
             b = boundsOf out;
             src = boundsOf (fs ! i)
         in stabilizeFrames (map Some fs) = Inr outs \<and> length outs = length fs
          \<and> fwidth out = maxContentWidth fs + 40 \<and> fheight out = maxContentHeight fs + 40
          \<and> (\<forall>j < length fs. rwidth (boundsOf (fs ! j)) \<le> maxContentWidth fs
                             \<and> rheight (boundsOf (fs ! j)) \<le> maxContentHeight fs)
          \<and> (\<exists>j < length fs. rwidth (boundsOf (fs ! j)) = maxContentWidth fs)
          \<and> (\<exists>j < length fs. rheight (boundsOf (fs ! j)) = maxContentHeight fs)
          \<and> rx b = (fwidth out - rwidth b) div 2
          \<and> ry b + rheight b = fheight out
          \<and> (frameContent (fs ! i) \<noteq> {} \<longrightarrow> rwidth b = rwidth src \<and> rheight b = rheight src)
          \<and> (\<forall>x < rwidth src. \<forall>y < rheight src.
                pixelAt out ((fwidth out - rwidth src) div 2 + x) (fheight out - rheight src + y)
                = pixelAt (fs ! i) (rx src + x) (ry src + y))"
proof -
  let ?cw = "maxContentWidth fs + 40"
  let ?ch = "maxContentHeight fs + 40"
  let ?f = "fs ! i"
  let ?o = "stabilizeOne ?cw ?ch ?f"
  have fi: "?f \<in> set fs" using i by simp
  have wfi: "wfFrame ?f" using wf fi by blast
  have le: "rwidth (boundsOf ?f) \<le> ?cw" "rheight (boundsOf ?f) \<le> ?ch"
    using content_bounds_le [OF fi] by simp_all
  have ne: "fs \<noteq> []" using i by auto
  have dims: "fwidth ?o = ?cw" "fheight ?o = ?ch"
    using stabilizeOne_props(2,3) [OF wfi le] by simp_all
  have all_le: "\<forall>j < length fs. rwidth (boundsOf (fs ! j)) \<le> maxContentWidth fs
                             \<and> rheight (boundsOf (fs ! j)) \<le> maxContentHeight fs"
    using content_bounds_le [of _ fs] by simp
  have px: "\<forall>x < rwidth (boundsOf ?f). \<forall>y < rheight (boundsOf ?f).
              pixelAt ?o ((?cw - rwidth (boundsOf ?f)) div 2 + x) (?ch - rheight (boundsOf ?f) + y)
              = pixelAt ?f (rx (boundsOf ?f) + x) (ry (boundsOf ?f) + y)"
    using stabilizeOne_props(6) [OF wfi le] .
  have place: "rx (boundsOf ?o) = (?cw - rwidth (boundsOf ?o)) div 2
             \<and> ry (boundsOf ?o) + rheight (boundsOf ?o) = ?ch
             \<and> (frameContent ?f \<noteq> {} \<longrightarrow> rwidth (boundsOf ?o) = rwidth (boundsOf ?f)
                  \<and> rheight (boundsOf ?o) = rheight (boundsOf ?f))"
  proof (cases "frameContent ?f = {}")
    case True
    then show ?thesis using stabilizeOne_props(4) [OF wfi le True] by simp
  next
    case False
    then show ?thesis using stabilizeOne_props(5) [OF wfi le False] le by simp
  qed
  show ?thesis
    unfolding Let_def nth_stabilizeDecoded [OF i] dims
    using all_le content_bounds_attained [OF ne] place px
    by (simp add: stabilizeFrames_Some length_stabilizeDecoded)
qed

lemma onePixel_opaque:
  "wfFrame (onePixel 0 255)" "frameContent (onePixel 0 255) \<noteq> {}"
  "boundsOf (onePixel 0 255) = \<lparr>rx = 0, ry = 0, rwidth = 1, rheight = 1\<rparr>"
proof -
  show w: "wfFrame (onePixel 0 255)" by (simp add: wfFrame_def onePixel_def)
  have "(0, 0) \<in> frameContent (onePixel 0 255)"
    by (simp add: frameContent_iff [OF w]) (simp add: onePixel_def pixelAt_def ALPHA_THRESHOLD_def)
  then show "frameContent (onePixel 0 255) \<noteq> {}" by auto
  show "boundsOf (onePixel 0 255) = \<lparr>rx = 0, ry = 0, rwidth = 1, rheight = 1\<rparr>"
    by code_simp
qed

lemma onePixel_clear:
  "wfFrame (onePixel 0 0)" "frameContent (onePixel 0 0) = {}"
  "boundsOf (onePixel 0 0) = \<lparr>rx = 0, ry = 0, rwidth = 1, rheight = 1\<rparr>"
proof -
  show w: "wfFrame (onePixel 0 0)" by (simp add: wfFrame_def onePixel_def)
  have "(x, y) \<notin> frameContent (onePixel 0 0)" for x y
    by (simp add: frameContent_iff [OF w]) (simp add: onePixel_def pixelAt_def)
  then show e: "frameContent (onePixel 0 0) = {}" by auto
  show "boundsOf (onePixel 0 0) = \<lparr>rx = 0, ry = 0, rwidth = 1, rheight = 1\<rparr>"
    using boundsOf_blank [OF w e] by (simp add: onePixel_def)
qed

theorem stabilized_canvas_witness:
  "wfFrame (onePixel 0 255) \<and> (0::nat) < length [onePixel 0 255]
   \<and> fwidth (stabilizeDecoded [onePixel 0 255] ! 0) = 41
   \<and> fheight (stabilizeDecoded [onePixel 0 255] ! 0) = 41
   \<and> boundsOf (stabilizeDecoded [onePixel 0 255] ! 0)
       = \<lparr>rx = 20, ry = 40, rwidth = 1, rheight = 1\<rparr>"
proof -
  have wf: "\<forall>f \<in> set [onePixel 0 255]. wfFrame f" using onePixel_opaque(1) by simp
  have i: "(0::nat) < length [onePixel 0 255]" by simp
  have m: "maxContentWidth [onePixel 0 255] = 1" "maxContentHeight [onePixel 0 255] = 1"
    by (simp_all add: maxContentWidth_def maxContentHeight_def Math_max_def onePixel_opaque(3))
  let ?b = "boundsOf (stabilizeDecoded [onePixel 0 255] ! 0)"
  have "fwidth (stabilizeDecoded [onePixel 0 255] ! 0) = 41
      \<and> fheight (stabilizeDecoded [onePixel 0 255] ! 0) = 41
      \<and> rx ?b = (41 - rwidth ?b) div 2 \<and> ry ?b + rheight ?b = 41
      \<and> rwidth ?b = 1 \<and> rheight ?b = 1"
    using stabilized_canvas [OF wf i] onePixel_opaque(2,3)
    by (simp add: Let_def m)
  then have "fwidth (stabilizeDecoded [onePixel 0 255] ! 0) = 41
      \<and> fheight (stabilizeDecoded [onePixel 0 255] ! 0) = 41
      \<and> rx ?b = 20 \<and> ry ?b = 40 \<and> rwidth ?b = 1 \<and> rheight ?b = 1"
    by simp
  then show ?thesis using onePixel_opaque(1) by (cases ?b) simp
qed

theorem margin_counterexample:
  "maxContentWidth [onePixel 0 255] = 1 \<and> maxContentHeight [onePixel 0 255] = 1
   \<and> fwidth (stabilizeDecoded [onePixel 0 255] ! 0) = 41
   \<and> fheight (stabilizeDecoded [onePixel 0 255] ! 0) = 41
   \<and> fwidth (stabilizeDecoded [onePixel 0 255] ! 0) \<noteq> maxContentWidth [onePixel 0 255] + 20
   \<and> fheight (stabilizeDecoded [onePixel 0 255] ! 0) \<noteq> maxContentHeight [onePixel 0 255] + 20"
proof -
  have m: "maxContentWidth [onePixel 0 255] = 1" "maxContentHeight [onePixel 0 255] = 1"
    by (simp_all add: maxContentWidth_def maxContentHeight_def Math_max_def onePixel_opaque(3))
  have "stabilizeDecoded [onePixel 0 255] ! 0 = stabilizeOne 41 41 (onePixel 0 255)"
    by (simp add: stabilizeDecoded_def Let_def m)
  then have "fwidth (stabilizeDecoded [onePixel 0 255] ! 0) = 41"
    "fheight (stabilizeDecoded [onePixel 0 255] ! 0) = 41"
    by (simp_all add: stabilizeOne_unfold composite_def)
  then show ?thesis using m by simp
qed

text \<open>
  Claim C8 (amended). Stabilization is idempotent on sequences of well-formed frames
  that each hold at least one pixel with alpha above 20: stabilizing the stabilized
  sequence gives the same sequence, pixel for pixel.
\<close>

theorem stabilize_idempotent:
  assumes "\<forall>f \<in> set fs. wfFrame f \<and> frameContent f \<noteq> {}"
  shows "stabilizeFrames (map Some fs) = Inr (stabilizeDecoded fs)
       \<and> stabilizeFrames (map Some (stabilizeDecoded fs)) = Inr (stabilizeDecoded fs)"
proof -
  let ?cw = "maxContentWidth fs + 40"
  let ?ch = "maxContentHeight fs + 40"
  let ?outs = "stabilizeDecoded fs"
  have outs: "?outs = map (stabilizeOne ?cw ?ch) fs" by (simp add: stabilizeDecoded_def Let_def)
  have le: "rwidth (boundsOf f) \<le> ?cw" "rheight (boundsOf f) \<le> ?ch" if "f \<in> set fs" for f
    using content_bounds_le [OF that] by simp_all
  have b: "rwidth (boundsOf (stabilizeOne ?cw ?ch f)) = rwidth (boundsOf f)
         \<and> rheight (boundsOf (stabilizeOne ?cw ?ch f)) = rheight (boundsOf f)"
    if "f \<in> set fs" for f
    using stabilizeOne_props(5) [of f ?cw ?ch] assms that le [OF that] by simp
  have "map (\<lambda>buf. rwidth (boundsOf buf)) (map (stabilizeOne ?cw ?ch) fs) =
        map (\<lambda>buf. rwidth (boundsOf buf)) fs"
    using b by (simp add: comp_def)
  then have mw: "maxContentWidth ?outs = maxContentWidth fs"
    unfolding outs by (simp only: maxContentWidth_def)
  have "map (\<lambda>buf. rheight (boundsOf buf)) (map (stabilizeOne ?cw ?ch) fs) =
        map (\<lambda>buf. rheight (boundsOf buf)) fs"
    using b by (simp add: comp_def)
  then have mh: "maxContentHeight ?outs = maxContentHeight fs"
    unfolding outs by (simp only: maxContentHeight_def)
  have "stabilizeDecoded ?outs = map (stabilizeOne ?cw ?ch) ?outs"
    by (simp add: stabilizeDecoded_def [of ?outs] Let_def mw mh)
  also have "\<dots> = map (\<lambda>f. stabilizeOne ?cw ?ch (stabilizeOne ?cw ?ch f)) fs"
    by (simp add: outs comp_def)
  also have "\<dots> = map (stabilizeOne ?cw ?ch) fs"
    using assms le stabilizeOne_idem by (intro map_cong) auto
  finally have "stabilizeDecoded ?outs = ?outs" by (simp add: outs)
  then show ?thesis by (simp add: stabilizeFrames_Some)
qed

theorem stabilize_idempotent_witness:
  "wfFrame (onePixel 0 255) \<and> frameContent (onePixel 0 255) \<noteq> {}
   \<and> stabilizeFrames (map Some (stabilizeDecoded [onePixel 0 255]))
       = Inr (stabilizeDecoded [onePixel 0 255])"
  using stabilize_idempotent [of "[onePixel 0 255]"] onePixel_opaque(1,2) by simp

theorem blank_frame_counterexample:
  "fwidth (stabilizeDecoded [onePixel 0 0] ! 0) = 41
   \<and> fwidth (stabilizeDecoded (stabilizeDecoded [onePixel 0 0]) ! 0) = 81
   \<and> stabilizeFrames (map Some (stabilizeDecoded [onePixel 0 0]))
       \<noteq> Inr (stabilizeDecoded [onePixel 0 0])"
proof -
  let ?o = "stabilizeOne 41 41 (onePixel 0 0)"
  have m: "maxContentWidth [onePixel 0 0] = 1" "maxContentHeight [onePixel 0 0] = 1"
    by (simp_all add: maxContentWidth_def maxContentHeight_def Math_max_def onePixel_clear(3))
  have s1: "stabilizeDecoded [onePixel 0 0] = [?o]"
    by (simp add: stabilizeDecoded_def Let_def m)
  have le: "rwidth (boundsOf (onePixel 0 0)) \<le> 41" "rheight (boundsOf (onePixel 0 0)) \<le> 41"
    by (simp_all add: onePixel_clear(3))
  have bo: "boundsOf ?o = \<lparr>rx = 0, ry = 0, rwidth = 41, rheight = 41\<rparr>"
    using stabilizeOne_props(4) [OF onePixel_clear(1) le onePixel_clear(2)] .
  have w1: "fwidth ?o = 41" using stabilizeOne_props(2) [OF onePixel_clear(1) le] .
  have m2: "maxContentWidth [?o] = 41" "maxContentHeight [?o] = 41"
    by (simp_all add: maxContentWidth_def maxContentHeight_def Math_max_def bo)
  have s2: "stabilizeDecoded [?o] = [stabilizeOne 81 81 ?o]"
    by (simp add: stabilizeDecoded_def Let_def m2)
  have w2: "fwidth (stabilizeOne 81 81 ?o) = 81"
    by (simp add: stabilizeOne_unfold composite_def)
  have ne: "stabilizeOne 81 81 ?o \<noteq> ?o" using w1 w2 by auto
  have sf: "stabilizeFrames (map Some (stabilizeDecoded [onePixel 0 0]))
              = Inr [stabilizeOne 81 81 ?o]"
    using stabilizeFrames_Some [of "stabilizeDecoded [onePixel 0 0]"] by (simp only: s1 s2)
  show ?thesis
    unfolding sf using ne by (simp add: s1 s2 w1 w2)
qed

end
